theory Spec2Isabelle
  imports Complex_Main "HOL-Library.Char_ord" "HOL-Library.List_Lexorder" "HOL-Library.Multiset"
begin

section \<open>The memory record (models.py)\<close>

text \<open>
  \<open>Memory\<close> of models.py, with the two fields of \<open>TimestampMixin\<close> and the row id
  \<open>_id\<close> of \<open>SQLerModel\<close> (\<open>None\<close> until the first save). A \<open>datetime\<close> is a
  natural number of clock ticks; \<open>datetime.min\<close> is tick 0. A string is a list of
  characters with code points below 256.
\<close>

record memory =
  m_id :: "nat option"
  content :: string
  tags :: "string list"
  context_text :: "string option"
  source :: string
  session_id :: "string option"
  supersedes :: "int option"
  see_also :: "int list"
  source_url :: "string option"
  source_file :: "string option"
  importance :: int
  created_at :: "nat option"
  updated_at :: "nat option"

section \<open>The store collaborator\<close>

text \<open>
  The document store (package \<open>sqler\<close>) is not part of the repository. Its rows are
  kept in the store's natural order; every call the program makes on it is appended
  to a log, so that "performs no query, save or delete" is a statement about the log.
\<close>

datatype store_op =
    Op_query_all
  | Op_search_ranked string int
  | Op_save memory
  | Op_delete memory

record store =
  rows :: "memory list"
  oplog :: "store_op list"

text \<open>
  Exceptions: any error of the search backend, \<open>IndexError\<close> of \<open>group[0]\<close>, and
  \<open>TypeError\<close> of a comparison between a naive and an aware \<open>datetime\<close>.
\<close>

datatype exn = Search_failed | Index_error | Type_error

text \<open>
  What the program cannot decide itself is a parameter:
  \<^item> \<open>search_ranked rows query limit\<close>: the answer of \<open>Memory.search_ranked\<close> over the
    current rows, a raised exception (\<open>Inl\<close>) or the (model, score) results in rank order;
  \<^item> \<open>list_of_set\<close>: the iteration order of a Python \<open>set\<close> of strings in \<open>list(s)\<close>;
  \<^item> \<open>confirm i\<close>: the answer typed at the prompt for group \<open>i\<close>;
  \<^item> \<open>now i\<close>: the clock reading when the keeper of group \<open>i\<close> is saved.
\<close>

record env =
  search_ranked :: "memory list \<Rightarrow> string \<Rightarrow> int \<Rightarrow> exn + (memory \<times> real) list"
  list_of_set :: "string set \<Rightarrow> string list"
  confirm :: "nat \<Rightarrow> bool"
  now :: "nat \<Rightarrow> nat"

definition query_all :: "store \<Rightarrow> memory list \<times> store" where
  "query_all st = (rows st, st\<lparr>oplog := oplog st @ [Op_query_all]\<rparr>)"

definition do_search_ranked ::
  "env \<Rightarrow> string \<Rightarrow> int \<Rightarrow> store \<Rightarrow> (exn + (memory \<times> real) list) \<times> store" where
  "do_search_ranked e query limit st =
     (search_ranked e (rows st) query limit,
      st\<lparr>oplog := oplog st @ [Op_search_ranked query limit]\<rparr>)"

definition fresh_id :: "memory list \<Rightarrow> nat" where
  "fresh_id rs = Suc (fold (\<lambda>r acc. case m_id r of None \<Rightarrow> acc | Some i \<Rightarrow> max i acc) rs 0)"

text \<open>
  Modelled from the spec: \<open>save\<close> of the store collaborator (spec section 6: "upsert;
  assigns id and created_at on first save, always refreshes updated_at"; section 3:
  a later save "bumps updated_at, preserves id and created_at").
\<close>

definition save :: "nat \<Rightarrow> memory \<Rightarrow> store \<Rightarrow> memory \<times> store" where
  "save t m st =
     (case m_id m of
        None \<Rightarrow>
          (let m' = m\<lparr>m_id := Some (fresh_id (rows st)), created_at := Some t,
                       updated_at := Some t\<rparr>
           in (m', st\<lparr>rows := rows st @ [m'], oplog := oplog st @ [Op_save m]\<rparr>))
      | Some i \<Rightarrow>
          (let m' = m\<lparr>updated_at := Some t\<rparr>
           in (m', st\<lparr>rows := (if Some i \<in> set (map m_id (rows st))
                                  then map (\<lambda>r. if m_id r = Some i then m' else r) (rows st)
                                  else rows st @ [m']),
                      oplog := oplog st @ [Op_save m]\<rparr>)))"

text \<open>
  Modelled from the spec: \<open>delete\<close> of the store collaborator (spec section 6:
  "permanent removal, including from the search index").
\<close>

definition delete :: "memory \<Rightarrow> store \<Rightarrow> store" where
  "delete m st =
     st\<lparr>rows := filter (\<lambda>r. m_id r \<noteq> m_id m) (rows st), oplog := oplog st @ [Op_delete m]\<rparr>"

definition from_id :: "store \<Rightarrow> nat \<Rightarrow> memory option" where
  "from_id st i = find (\<lambda>r. m_id r = Some i) (rows st)"

section \<open>Python string helpers\<close>

text \<open>\<open>str.isspace\<close> on the code points below 256.\<close>

definition isspace :: "char \<Rightarrow> bool" where
  "isspace c = (c \<in> {CHR 0x09, CHR 0x0A, CHR 0x0B, CHR 0x0C, CHR 0x0D,
                      CHR 0x1C, CHR 0x1D, CHR 0x1E, CHR 0x1F, CHR 0x20, CHR 0x85, CHR 0xA0})"

text \<open>
  \<open>s.split()\<close> without arguments: the maximal runs of non-whitespace characters.
  \<open>split_acc w s\<close> scans \<open>s\<close> with the current word \<open>w\<close>.
\<close>

fun split_acc :: "string \<Rightarrow> string \<Rightarrow> string list" where
  "split_acc w [] = (if w = [] then [] else [w])"
| "split_acc w (c # cs) =
     (if isspace c then (if w = [] then split_acc [] cs else w # split_acc [] cs)
      else split_acc (w @ [c]) cs)"

definition split :: "string \<Rightarrow> string list" where
  "split s = split_acc [] s"

text \<open>\<open>sep.join(words)\<close>.\<close>

fun join :: "string \<Rightarrow> string list \<Rightarrow> string" where
  "join sep [] = []"
| "join sep [w] = w"
| "join sep (w # ws) = w @ sep @ join sep ws"

section \<open>The search oracle adapter: \<open>_find_similar\<close> (cli.py 138-165)\<close>

text \<open>
  The \<open>for result in results\<close> loop; \<open>similar\<close> is the list built so far. The
  \<open>continue\<close> on the probe itself also skips the \<open>break\<close> test.
\<close>

fun scan_results ::
  "memory \<Rightarrow> int \<Rightarrow> real \<Rightarrow> (memory \<times> real) list \<Rightarrow> (memory \<times> real) list
     \<Rightarrow> (memory \<times> real) list" where
  "scan_results memory limit threshold [] similar = similar"
| "scan_results memory limit threshold (result # results) similar =
     (if m_id (fst result) = m_id memory
      then scan_results memory limit threshold results similar
      else
        (let similar' = (if snd result \<le> threshold then similar @ [result] else similar)
         in if int (length similar') \<ge> limit then similar'
            else scan_results memory limit threshold results similar'))"

definition find_similar ::
  "env \<Rightarrow> memory \<Rightarrow> int \<Rightarrow> real \<Rightarrow> store \<Rightarrow> (memory \<times> real) list \<times> store" where
  "find_similar e memory limit threshold st =
     (let words = take 10 (split (content memory)) in
      if words = [] then ([], st)
      else
        (let query = join '' OR '' words in
         case do_search_ranked e query (limit + 1) st of
           (Inl ex, st') \<Rightarrow> ([], st')
         | (Inr results, st') \<Rightarrow> (scan_results memory limit threshold results [], st')))"

section \<open>The duplicate group builder (cli.py 1303-1323)\<close>

record builder =
  seen_ids :: "nat option set"
  duplicate_groups :: "memory list list"
  b_store :: store

text \<open>The inner loop \<open>for sim_mem, _score in similar\<close>.\<close>

fun add_neighbours ::
  "(memory \<times> real) list \<Rightarrow> memory list \<times> nat option set \<Rightarrow> memory list \<times> nat option set" where
  "add_neighbours [] (grp, seen) = (grp, seen)"
| "add_neighbours ((sim_mem, score) # similar) (grp, seen) =
     (if m_id sim_mem \<notin> seen
      then add_neighbours similar (grp @ [sim_mem], insert (m_id sim_mem) seen)
      else add_neighbours similar (grp, seen))"

text \<open>One iteration of \<open>for memory in all_memories\<close>.\<close>

definition group_step :: "env \<Rightarrow> real \<Rightarrow> memory \<Rightarrow> builder \<Rightarrow> builder" where
  "group_step e threshold memory b =
     (if m_id memory \<in> seen_ids b then b
      else
        (case find_similar e memory 10 threshold (b_store b) of
           (similar, st') \<Rightarrow>
             if similar = [] then b\<lparr>b_store := st'\<rparr>
             else
               (case add_neighbours similar ([memory], seen_ids b) of
                  (grp, seen) \<Rightarrow>
                    if length grp > 1
                    then \<lparr>seen_ids = insert (m_id memory) seen,
                          duplicate_groups = duplicate_groups b @ [grp],
                          b_store = st'\<rparr>
                    else \<lparr>seen_ids = seen, duplicate_groups = duplicate_groups b,
                          b_store = st'\<rparr>)))"

definition build_groups :: "env \<Rightarrow> real \<Rightarrow> memory list \<Rightarrow> store \<Rightarrow> builder" where
  "build_groups e threshold all_memories st =
     fold (group_step e threshold) all_memories
       \<lparr>seen_ids = {}, duplicate_groups = [], b_store = st\<rparr>"

section \<open>The merge policy (cli.py 1353-1371)\<close>

text \<open>
  The sort key \<open>m.created_at or datetime.min\<close>. The timestamps the store writes are
  timezone-aware; \<open>datetime.min\<close> is naive.
\<close>

datatype stamp = Naive_min | Aware nat

definition created_key :: "memory \<Rightarrow> stamp" where
  "created_key m = (case created_at m of None \<Rightarrow> Naive_min | Some t \<Rightarrow> Aware t)"

text \<open>
  Python compares two aware timestamps by their instant and finds \<open>datetime.min\<close>
  equal to itself, but raises \<open>TypeError\<close> when one key is naive and the other aware.
\<close>

fun key_less :: "stamp \<Rightarrow> stamp \<Rightarrow> exn + bool" where
  "key_less Naive_min Naive_min = Inr False"
| "key_less (Aware a) (Aware b) = Inr (a < b)"
| "key_less Naive_min (Aware b) = Inl Type_error"
| "key_less (Aware a) Naive_min = Inl Type_error"

text \<open>
  A list with a naive and an aware key cannot be sorted: a comparison sort relates every
  element to the others through its comparisons, so one of them meets a naive and an
  aware key.
\<close>

definition mixed_keys :: "memory list \<Rightarrow> bool" where
  "mixed_keys grp =
     (list_ex (\<lambda>m. created_key m = Naive_min) grp
      \<and> list_ex (\<lambda>m. created_key m \<noteq> Naive_min) grp)"

text \<open>The position of a key in descending order, among keys that can be compared.\<close>

definition key_order :: "stamp \<Rightarrow> int" where
  "key_order k = (case k of Naive_min \<Rightarrow> 0 | Aware t \<Rightarrow> - int t)"

text \<open>
  \<open>group.sort(key=..., reverse=True)\<close>: Python's sort is stable also under
  \<open>reverse=True\<close>, so members with equal keys keep their order.
\<close>

definition sort_newest_first :: "memory list \<Rightarrow> exn + memory list" where
  "sort_newest_first grp =
     (if mixed_keys grp then Inl Type_error
      else Inr (sort_key (\<lambda>m. key_order (created_key m)) grp))"

record merged =
  keeper_saved :: memory
  deleted_count :: nat
  m_store :: store

definition merge_group :: "env \<Rightarrow> nat \<Rightarrow> memory list \<Rightarrow> store \<Rightarrow> exn + merged" where
  "merge_group e i grp st =
     (case sort_newest_first grp of
        Inl ex \<Rightarrow> Inl ex
      | Inr [] \<Rightarrow> Inl Index_error
      | Inr (keeper # rest) \<Rightarrow>
          (let all_tags = fold (\<lambda>mem s. s \<union> set (tags mem)) rest (set (tags keeper));
               keeper' = keeper\<lparr>tags := list_of_set e all_tags\<rparr>
           in case save (now e i) keeper' st of
                (saved, st1) \<Rightarrow>
                  Inr \<lparr>keeper_saved = saved, deleted_count = length grp - 1,
                       m_store = fold delete rest st1\<rparr>))"

section \<open>The dedupe command (cli.py 1267-1376)\<close>

text \<open>
  What \<open>typer.echo\<close> and \<open>typer.confirm\<close> print. The two fixed messages keep their
  text; a formatted line keeps the values it is formatted from.
\<close>

datatype echo =
    Echo_text string
  | Echo_found nat
  | Echo_group nat
  | Echo_member memory
  | Echo_blank
  | Echo_prompt
  | Echo_merged "nat option" nat
  | Echo_total nat

record dedupe_state =
  d_store :: store
  echoed :: "echo list"
  merged_count :: nat

text \<open>
  The loop \<open>for i, group in enumerate(duplicate_groups, 1)\<close>. An exception ends the
  run and leaves the store as the groups merged before have made it.
\<close>

fun merge_loop ::
  "env \<Rightarrow> bool \<Rightarrow> bool \<Rightarrow> bool \<Rightarrow> nat \<Rightarrow> memory list list \<Rightarrow> dedupe_state
     \<Rightarrow> exn \<times> dedupe_state + dedupe_state" where
  "merge_loop e dry_run auto quiet i [] d = Inr d"
| "merge_loop e dry_run auto quiet i (grp # groups) d =
     (let d1 = d\<lparr>echoed := echoed d @
                  (if \<not> quiet then [Echo_group i] @ map Echo_member grp @ [Echo_blank]
                   else [])\<rparr>
      in if dry_run then merge_loop e dry_run auto quiet (Suc i) groups d1
         else
           (let asks = (\<not> auto \<and> \<not> quiet);
                should_merge = (if asks then confirm e i else auto);
                d2 = (if asks then d1\<lparr>echoed := echoed d1 @ [Echo_prompt]\<rparr> else d1)
            in if should_merge
               then
                 (case merge_group e i grp (d_store d2) of
                    Inl ex \<Rightarrow> Inl (ex, d2)
                  | Inr r \<Rightarrow>
                      merge_loop e dry_run auto quiet (Suc i) groups
                        \<lparr>d_store = m_store r,
                         echoed = echoed d2 @
                           (if \<not> quiet
                            then [Echo_merged (m_id (keeper_saved r)) (length grp - 1)]
                            else []),
                         merged_count = merged_count d2 + (length grp - 1)\<rparr>)
               else merge_loop e dry_run auto quiet (Suc i) groups d2))"

record dedupe_result =
  final_store :: store
  echo_lines :: "echo list"
  groups_found :: "memory list list"
  total_merged :: nat

definition dedupe ::
  "env \<Rightarrow> bool \<Rightarrow> bool \<Rightarrow> real \<Rightarrow> bool \<Rightarrow> store
     \<Rightarrow> exn \<times> dedupe_result + dedupe_result" where
  "dedupe e dry_run auto threshold quiet st =
     (case query_all st of
        (all_memories, st0) \<Rightarrow>
          if length all_memories < 2
          then Inr \<lparr>final_store = st0,
                    echo_lines = (if \<not> quiet
                              then [Echo_text ''Not enough memories to deduplicate.'']
                              else []),
                    groups_found = [], total_merged = 0\<rparr>
          else
            (let b = build_groups e threshold all_memories st0 in
             if duplicate_groups b = []
             then Inr \<lparr>final_store = b_store b,
                       echo_lines = (if \<not> quiet then [Echo_text ''No duplicates found.''] else []),
                       groups_found = [], total_merged = 0\<rparr>
             else
               (case merge_loop e dry_run auto quiet 1 (duplicate_groups b)
                       \<lparr>d_store = b_store b,
                        echoed = (if \<not> quiet then [Echo_found (length (duplicate_groups b))]
                                  else []),
                        merged_count = 0\<rparr> of
                  Inl (ex, d) \<Rightarrow>
                    Inl (ex, \<lparr>final_store = d_store d, echo_lines = echoed d,
                              groups_found = duplicate_groups b,
                              total_merged = merged_count d\<rparr>)
                | Inr d \<Rightarrow>
                    Inr \<lparr>final_store = d_store d,
                         echo_lines = echoed d @
                           (if \<not> quiet \<and> \<not> dry_run then [Echo_total (merged_count d)]
                            else []),
                         groups_found = duplicate_groups b,
                         total_merged = merged_count d\<rparr>)))"

section \<open>The commands that write tags\<close>

subsection \<open>\<open>remember\<close> (cli.py 380-408)\<close>

text \<open>
  The keys of \<open>AUTO_TAG_PATTERNS\<close> in dictionary order. The regular expression
  engine is a parameter: \<open>pattern_search k text\<close> says whether the pattern stored
  under key \<open>k\<close> is found in \<open>text\<close>.
\<close>

definition AUTO_TAG_PATTERNS :: "string list" where
  "AUTO_TAG_PATTERNS = [''api'', ''database'', ''config'', ''auth'', ''error'', ''security'']"

definition auto_tag :: "(string \<Rightarrow> string \<Rightarrow> bool) \<Rightarrow> string \<Rightarrow> string list" where
  "auto_tag pattern_search text = filter (\<lambda>k. pattern_search k text) AUTO_TAG_PATTERNS"

record remember_args =
  r_content :: string
  r_tag :: "string list option"
  r_context :: "string option"
  r_source :: string
  r_session :: "string option"
  r_auto_tag :: bool
  r_suggest_tags :: bool
  r_supersedes :: "int option"
  r_see_also :: "int list option"
  r_source_url :: "string option"
  r_source_file :: "string option"
  r_importance :: int
  r_quiet :: bool

text \<open>
  Lines 380-394, the tag list; \<open>add_them\<close> is the answer to the prompt "Add them?".
\<close>

definition remember_tags ::
  "(string \<Rightarrow> string \<Rightarrow> bool) \<Rightarrow> bool \<Rightarrow> remember_args \<Rightarrow> string list" where
  "remember_tags pattern_search add_them a =
     (let tags0 = (case r_tag a of None \<Rightarrow> [] | Some ts \<Rightarrow> ts) in
      if r_auto_tag a \<or> r_suggest_tags a
      then
        (let suggested = filter (\<lambda>t. t \<notin> set tags0) (auto_tag pattern_search (r_content a)) in
         if r_suggest_tags a \<and> suggested \<noteq> [] \<and> \<not> r_quiet a
         then (if add_them then tags0 @ suggested else tags0)
         else if r_auto_tag a then tags0 @ suggested
         else tags0)
      else tags0)"

text \<open>Lines 396-408: the record is built and saved at time \<open>t\<close>.\<close>

definition remember ::
  "(string \<Rightarrow> string \<Rightarrow> bool) \<Rightarrow> bool \<Rightarrow> nat \<Rightarrow> remember_args \<Rightarrow> store \<Rightarrow> memory \<times> store" where
  "remember pattern_search add_them t a st =
     save t
       \<lparr>m_id = None, content = r_content a, tags = remember_tags pattern_search add_them a,
        context_text = r_context a, source = r_source a, session_id = r_session a,
        supersedes = r_supersedes a,
        see_also = (case r_see_also a of None \<Rightarrow> [] | Some xs \<Rightarrow> xs),
        source_url = r_source_url a, source_file = r_source_file a,
        importance = r_importance a, created_at = None, updated_at = None\<rparr>
       st"

subsection \<open>\<open>update\<close>, the tag block (cli.py 1184-1193)\<close>

text \<open>
  \<open>existing\<close> is computed once, before the loop, and is not extended by the loop.
  The result is the record and the flag \<open>changed\<close>.
\<close>

definition update_tags :: "bool \<Rightarrow> string list option \<Rightarrow> memory \<times> bool \<Rightarrow> memory \<times> bool" where
  "update_tags clear_tags tag mc =
     (if clear_tags then ((fst mc)\<lparr>tags := []\<rparr>, True)
      else
        (case tag of
           None \<Rightarrow> mc
         | Some ts \<Rightarrow>
             (let existing = set (tags (fst mc)) in
              fold (\<lambda>t (m, changed).
                      if t \<notin> existing then (m\<lparr>tags := tags m @ [t]\<rparr>, True) else (m, changed))
                ts mc)))"

subsection \<open>\<open>tags add\<close> (cli.py 790-814)\<close>

datatype exit = Exit int

definition tags_add :: "nat \<Rightarrow> nat \<Rightarrow> string \<Rightarrow> store \<Rightarrow> exit + store" where
  "tags_add t memory_id tag st =
     (case from_id st memory_id of
        None \<Rightarrow> Inl (Exit 1)
      | Some memory \<Rightarrow>
          if tag \<in> set (tags memory) then Inr st
          else Inr (snd (save t (memory\<lparr>tags := tags memory @ [tag]\<rparr>) st)))"

subsection \<open>\<open>import\<close> (cli.py 1032-1046)\<close>

text \<open>One decoded JSON object; an absent key is \<open>None\<close>.\<close>

record import_item =
  i_content :: string
  i_tags :: "string list option"
  i_context :: "string option"
  i_source :: "string option"
  i_session_id :: "string option"
  i_supersedes :: "int option"
  i_see_also :: "int list option"
  i_source_url :: "string option"
  i_source_file :: "string option"
  i_importance :: "int option"

definition import_memory :: "import_item \<Rightarrow> memory" where
  "import_memory item =
     \<lparr>m_id = None, content = i_content item,
      tags = (case i_tags item of None \<Rightarrow> [] | Some ts \<Rightarrow> ts),
      context_text = i_context item,
      source = (case i_source item of None \<Rightarrow> ''imported'' | Some s \<Rightarrow> s),
      session_id = i_session_id item, supersedes = i_supersedes item,
      see_also = (case i_see_also item of None \<Rightarrow> [] | Some xs \<Rightarrow> xs),
      source_url = i_source_url item, source_file = i_source_file item,
      importance = (case i_importance item of None \<Rightarrow> 3 | Some n \<Rightarrow> n),
      created_at = None, updated_at = None\<rparr>"

definition import_memories :: "nat \<Rightarrow> import_item list \<Rightarrow> store \<Rightarrow> store" where
  "import_memories t data st = fold (\<lambda>item s. snd (save t (import_memory item) s)) data st"

section \<open>A small corpus and a toy ranked search\<close>

text \<open>A saved record with the defaults of \<open>Memory\<close>.\<close>

definition stored_memory :: "nat \<Rightarrow> string \<Rightarrow> string list \<Rightarrow> nat \<Rightarrow> memory" where
  "stored_memory i c ts t =
     \<lparr>m_id = Some i, content = c, tags = ts, context_text = None, source = ''user'',
      session_id = None, supersedes = None, see_also = [], source_url = None,
      source_file = None, importance = 3, created_at = Some t, updated_at = Some t\<rparr>"

definition mem1 :: memory where "mem1 = stored_memory 1 ''api key'' [''old-tag''] 10"
definition mem2 :: memory where "mem2 = stored_memory 2 ''api key file'' [''new-tag''] 20"
definition mem3 :: memory where "mem3 = stored_memory 3 ''db note'' [] 30"
definition mem4 :: memory where "mem4 = stored_memory 4 ''beta alpha'' [] 40"
definition mem5 :: memory where "mem5 = stored_memory 5 ''alpha'' [] 50"

definition corpus :: store where
  "corpus = \<lparr>rows = [mem1, mem2, mem3], oplog = []\<rparr>"

definition corpus_asym :: store where
  "corpus_asym = \<lparr>rows = [mem4, mem5], oplog = []\<rparr>"

text \<open>
  The toy search fails on a query with a double quote, and otherwise ranks the rows
  that contain the first token of the query, longer contents first.
\<close>

definition toy_search :: "memory list \<Rightarrow> string \<Rightarrow> int \<Rightarrow> exn + (memory \<times> real) list" where
  "toy_search rs query limit =
     (if CHR 0x22 \<in> set query then Inl Search_failed
      else
        (case split query of
           [] \<Rightarrow> Inr []
         | w # ws \<Rightarrow>
             Inr (take (nat limit)
                    (sort_key snd
                       (map (\<lambda>r. (r, - real (length (content r))))
                          (filter (\<lambda>r. w \<in> set (split (content r))) rs))))))"

definition toy_env :: env where
  "toy_env = \<lparr>search_ranked = toy_search, list_of_set = sorted_list_of_set,
              confirm = (\<lambda>i. False), now = (\<lambda>i. 100 + i)\<rparr>"

text \<open>The two assumptions on the collaborators that some properties need.\<close>

definition set_iteration_ok :: "env \<Rightarrow> bool" where
  "set_iteration_ok e =
     (\<forall>S. finite S \<longrightarrow> set (list_of_set e S) = S \<and> distinct (list_of_set e S))"

definition ranked :: "env \<Rightarrow> bool" where
  "ranked e =
     (\<forall>rs query limit results.
        search_ranked e rs query limit = Inr results \<longrightarrow> sorted (map snd results))"

section \<open>Predicates used in the statements\<close>

text \<open>The ids of the members of the emitted groups, in order of emission.\<close>

definition group_ids :: "memory list list \<Rightarrow> nat option list" where
  "group_ids gs = concat (map (map m_id) gs)"

text \<open>
  The invariant of the group-building loop: every emitted group has at least two
  members, no id occurs twice among the members of all emitted groups, and the visited
  set is the set of those ids.
\<close>

definition builder_inv :: "builder \<Rightarrow> bool" where
  "builder_inv b =
     ((\<forall>g \<in> set (duplicate_groups b). 2 \<le> length g)
      \<and> distinct (group_ids (duplicate_groups b))
      \<and> seen_ids b = set (group_ids (duplicate_groups b)))"

text \<open>
  The store's own invariant on ids (spec section 3: "id is unique and stable once
  assigned"): every row has an id and no two rows share one.
\<close>

definition store_ok :: "store \<Rightarrow> bool" where
  "store_ok st = (distinct (map m_id (rows st)) \<and> None \<notin> set (map m_id (rows st)))"

text \<open>The union of the tag lists of the members of a group, as a set.\<close>

definition union_tags :: "memory list \<Rightarrow> string set" where
  "union_tags grp = (\<Union>m \<in> set grp. set (tags m))"

text \<open>The store operations that write: \<open>save\<close> and \<open>delete\<close>.\<close>

fun is_write :: "store_op \<Rightarrow> bool" where
  "is_write (Op_save m) = True"
| "is_write (Op_delete m) = True"
| "is_write Op_query_all = False"
| "is_write (Op_search_ranked query limit) = False"

text \<open>
  The duplicate groups a run of \<open>dedupe\<close> has computed, whether the run ends normally
  or in an exception of the merge loop.
\<close>

definition found :: "exn \<times> dedupe_result + dedupe_result \<Rightarrow> memory list list" where
  "found res = (case res of Inl (ex, r) \<Rightarrow> groups_found r | Inr r \<Rightarrow> groups_found r)"

text \<open>No row of the store has a tag twice.\<close>

definition tags_unique :: "store \<Rightarrow> bool" where
  "tags_unique st = list_all (\<lambda>m. distinct (tags m)) (rows st)"

text \<open>The \<open>--tag\<close> values of a command line, and the \<open>tags\<close> of an imported object.\<close>

definition supplied :: "string list option \<Rightarrow> string list" where
  "supplied tag = (case tag of None \<Rightarrow> [] | Some ts \<Rightarrow> ts)"

text \<open>A store with one row, and \<open>remember "note" --tag a --tag a\<close>.\<close>

definition single :: store where
  "single = \<lparr>rows = [mem1], oplog = []\<rparr>"

definition twice_args :: remember_args where
  "twice_args =
     \<lparr>r_content = ''note'', r_tag = Some [''a'', ''a''], r_context = None, r_source = ''user'',
      r_session = None, r_auto_tag = False, r_suggest_tags = False, r_supersedes = None,
      r_see_also = None, r_source_url = None, r_source_file = None, r_importance = 3,
      r_quiet = False\<rparr>"

text \<open>
  A pattern search that finds nothing, \<open>remember "note" --tag a --tag b\<close>, and an
  imported object with one tag.
\<close>

definition no_match :: "string \<Rightarrow> string \<Rightarrow> bool" where
  "no_match k text = False"

definition plain_args :: remember_args where
  "plain_args = twice_args\<lparr>r_tag := Some [''a'', ''b'']\<rparr>"

definition one_item :: import_item where
  "one_item =
     \<lparr>i_content = ''imported note'', i_tags = Some [''a''], i_context = None, i_source = None,
      i_session_id = None, i_supersedes = None, i_see_also = None, i_source_url = None,
      i_source_file = None, i_importance = None\<rparr>"

section \<open>Properties of the search oracle adapter\<close>

lemma scan_results_members:
  "set (scan_results M limit t rs acc)
     \<subseteq> set acc \<union> {r \<in> set rs. m_id (fst r) \<noteq> m_id M \<and> snd r \<le> t}"
proof (induction rs arbitrary: acc)
  case Nil
  then show ?case by simp
next
  case (Cons r rs)
  show ?case
  proof (cases "m_id (fst r) = m_id M")
    case True
    with Cons.IH[of acc] show ?thesis by auto
  next
    case False
    define acc' where "acc' = (if snd r \<le> t then acc @ [r] else acc)"
    have sub: "set acc' \<subseteq> set acc \<union> {x \<in> set (r # rs). m_id (fst x) \<noteq> m_id M \<and> snd x \<le> t}"
      using False by (auto simp: acc'_def)
    have "scan_results M limit t (r # rs) acc = acc'
          \<or> scan_results M limit t (r # rs) acc = scan_results M limit t rs acc'"
      using False by (simp add: Let_def acc'_def)
    then show ?thesis
    proof
      assume eq: "scan_results M limit t (r # rs) acc = acc'"
      show ?thesis unfolding eq using sub by blast
    next
      assume eq: "scan_results M limit t (r # rs) acc = scan_results M limit t rs acc'"
      show ?thesis unfolding eq using sub Cons.IH[of acc'] by auto
    qed
  qed
qed

lemma scan_results_length:
  "int (length acc) < max limit 1 \<Longrightarrow>
   int (length (scan_results M limit t rs acc)) \<le> max limit 1"
proof (induction rs arbitrary: acc)
  case Nil
  then show ?case by simp
next
  case (Cons r rs)
  show ?case
  proof (cases "m_id (fst r) = m_id M")
    case True
    with Cons show ?thesis by simp
  next
    case False
    define acc' where "acc' = (if snd r \<le> t then acc @ [r] else acc)"
    have len: "int (length acc') \<le> max limit 1"
      using Cons.prems by (simp add: acc'_def)
    show ?thesis
    proof (cases "limit \<le> int (length acc')")
      case True
      with False len show ?thesis by (simp add: acc'_def Let_def)
    next
      case stop: False
      then have "int (length acc') < max limit 1" by simp
      from Cons.IH[OF this] False stop show ?thesis
        by (simp add: acc'_def Let_def)
    qed
  qed
qed

lemma scan_results_take:
  "1 \<le> limit \<Longrightarrow> int (length acc) < limit \<Longrightarrow>
   scan_results M limit t rs acc =
     acc @ take (nat limit - length acc)
             (filter (\<lambda>r. m_id (fst r) \<noteq> m_id M \<and> snd r \<le> t) rs)"
proof (induction rs arbitrary: acc)
  case Nil
  then show ?case by simp
next
  case (Cons r rs)
  show ?case
  proof (cases "m_id (fst r) \<noteq> m_id M \<and> snd r \<le> t")
    case False
    with Cons show ?thesis by (auto simp: Let_def)
  next
    case True
    show ?thesis
    proof (cases "limit \<le> int (length acc) + 1")
      case True
      with Cons.prems have "nat limit - length acc = 1" by linarith
      with True \<open>m_id (fst r) \<noteq> m_id M \<and> snd r \<le> t\<close> show ?thesis
        by (simp add: Let_def)
    next
      case False
      then have lt: "int (length (acc @ [r])) < limit" by simp
      have "nat limit - length acc = Suc (nat limit - length (acc @ [r]))"
        using False by simp
      with Cons.IH[OF Cons.prems(1) lt] True False show ?thesis
        by (simp add: Let_def)
    qed
  qed
qed

lemma scan_results_nonpositive:
  "limit \<le> 0 \<Longrightarrow>
   scan_results M limit t rs acc =
     (case filter (\<lambda>r. m_id (fst r) \<noteq> m_id M) rs of
        [] \<Rightarrow> acc
      | r # rest \<Rightarrow> if snd r \<le> t then acc @ [r] else acc)"
  by (induction rs arbitrary: acc) (auto simp: Let_def)


lemma filter_le_extends:
  "sorted (map snd xs) \<Longrightarrow> t1 \<le> t2 \<Longrightarrow>
   \<exists>zs. filter (\<lambda>r. P r \<and> snd r \<le> t2) xs = filter (\<lambda>r. P r \<and> snd r \<le> (t1::real)) xs @ zs"
proof (induction xs)
  case Nil
  then show ?case by simp
next
  case (Cons x xs)
  then obtain zs where zs:
    "filter (\<lambda>r. P r \<and> snd r \<le> t2) xs = filter (\<lambda>r. P r \<and> snd r \<le> t1) xs @ zs"
    by auto
  show ?case
  proof (cases "snd x \<le> t1")
    case True
    with Cons.prems zs show ?thesis by simp
  next
    case False
    with Cons.prems have "\<forall>r \<in> set (x # xs). \<not> snd r \<le> t1" by fastforce
    then have "filter (\<lambda>r. P r \<and> snd r \<le> t1) (x # xs) = []"
      by (simp only: filter_empty_conv) blast
    then show ?thesis by simp
  qed
qed

lemma scan_results_monotone:
  assumes "sorted (map snd rs)" "t1 \<le> t2"
  shows "set (scan_results M limit t1 rs []) \<subseteq> set (scan_results M limit t2 rs [])"
proof (cases "1 \<le> limit")
  case True
  obtain zs where zs:
    "filter (\<lambda>r. m_id (fst r) \<noteq> m_id M \<and> snd r \<le> t2) rs
       = filter (\<lambda>r. m_id (fst r) \<noteq> m_id M \<and> snd r \<le> t1) rs @ zs"
    using filter_le_extends[OF assms, of "\<lambda>r. m_id (fst r) \<noteq> m_id M"] by blast
  from True show ?thesis
    by (simp add: scan_results_take zs)
next
  case False
  then have "limit \<le> 0" by simp
  with assms(2) show ?thesis
    by (auto simp: scan_results_nonpositive split: list.splits)
qed

lemma find_similar_no_tokens:
  "split (content M) = [] \<Longrightarrow> find_similar e M limit t st = ([], st)"
  by (simp add: find_similar_def)

lemma find_similar_tokens:
  "split (content M) \<noteq> [] \<Longrightarrow>
   find_similar e M limit t st =
     ((case search_ranked e (rows st) (join '' OR '' (take 10 (split (content M)))) (limit + 1) of
         Inl ex \<Rightarrow> []
       | Inr results \<Rightarrow> scan_results M limit t results []),
      st\<lparr>oplog := oplog st @
             [Op_search_ranked (join '' OR '' (take 10 (split (content M)))) (limit + 1)]\<rparr>)"
  by (simp add: find_similar_def do_search_ranked_def Let_def split: sum.splits)

lemma find_similar_rows: "rows (snd (find_similar e M limit t st)) = rows st"
  by (cases "split (content M) = []") (simp_all add: find_similar_no_tokens find_similar_tokens)

text \<open>
  C4 (as amended). A probe with at least one token makes exactly one ranked search,
  with the first ten tokens joined by \<open>OR\<close> and \<open>limit + 1\<close> as the limit. Every
  returned pair is one of the search results, is not the probe itself and has a score
  of at most the threshold. At most \<open>limit\<close> pairs are returned when
  \<open>limit \<ge> 1\<close>, and at most one pair when \<open>limit \<le> 0\<close>.
\<close>

theorem find_similar_postcondition:
  assumes "split (content M) \<noteq> []"
  shows "oplog (snd (find_similar e M limit t st)) =
           oplog st @ [Op_search_ranked (join '' OR '' (take 10 (split (content M)))) (limit + 1)]
         \<and> (\<forall>p \<in> set (fst (find_similar e M limit t st)).
               m_id (fst p) \<noteq> m_id M \<and> snd p \<le> t
               \<and> (\<exists>results. search_ranked e (rows st)
                               (join '' OR '' (take 10 (split (content M)))) (limit + 1)
                             = Inr results \<and> p \<in> set results))
         \<and> int (length (fst (find_similar e M limit t st))) \<le> max limit 1"
proof -
  let ?q = "join '' OR '' (take 10 (split (content M)))"
  show ?thesis
  proof (cases "search_ranked e (rows st) ?q (limit + 1)")
    case (Inl ex)
    with assms show ?thesis by (simp add: find_similar_tokens)
  next
    case (Inr results)
    have res: "fst (find_similar e M limit t st) = scan_results M limit t results []"
      using assms Inr by (simp add: find_similar_tokens)
    have "int (length (scan_results M limit t results [])) \<le> max limit 1"
      by (rule scan_results_length) simp
    moreover have "\<forall>p \<in> set (scan_results M limit t results []).
                     m_id (fst p) \<noteq> m_id M \<and> snd p \<le> t \<and> p \<in> set results"
      using scan_results_members[of M limit t results "[]"] by auto
    ultimately show ?thesis
      using assms Inr res by (simp add: find_similar_tokens)
  qed
qed

text \<open>
  C5. For a fixed probe, store and limit, and a search that returns its results in
  rank order (ascending score), the pairs returned under threshold \<open>t1\<close> are among
  those returned under any threshold \<open>t2 \<ge> t1\<close>.
\<close>

theorem threshold_monotone:
  assumes "ranked e" "t1 \<le> t2"
  shows "set (fst (find_similar e M limit t1 st)) \<subseteq> set (fst (find_similar e M limit t2 st))"
proof (cases "split (content M) = []")
  case True
  then show ?thesis by (simp add: find_similar_no_tokens)
next
  case False
  let ?q = "join '' OR '' (take 10 (split (content M)))"
  show ?thesis
  proof (cases "search_ranked e (rows st) ?q (limit + 1)")
    case (Inl ex)
    with False show ?thesis by (simp add: find_similar_tokens)
  next
    case (Inr results)
    with assms(1) have "sorted (map snd results)" unfolding ranked_def by blast
    from scan_results_monotone[OF this assms(2)] False Inr show ?thesis
      by (simp add: find_similar_tokens)
  qed
qed

text \<open>
  C6. A probe whose content has no token, or whose ranked search raises, gets the
  empty list: \<open>find_similar\<close> has no error result, the exception ends in
  the \<open>except\<close> branch.
\<close>

theorem find_similar_absorbs_failure:
  assumes "split (content M) = []
           \<or> (\<exists>ex. search_ranked e (rows st) (join '' OR '' (take 10 (split (content M))))
                      (limit + 1) = Inl ex)"
  shows "fst (find_similar e M limit t st) = []"
proof (cases "split (content M) = []")
  case True
  then show ?thesis by (simp add: find_similar_no_tokens)
next
  case False
  with assms show ?thesis by (auto simp: find_similar_tokens)
qed

lemmas toy_defs =
  find_similar_def do_search_ranked_def split_def isspace_def toy_env_def toy_search_def
  mem1_def mem2_def mem3_def mem4_def mem5_def stored_memory_def corpus_def corpus_asym_def

lemma ranked_toy_env: "ranked toy_env"
  by (simp add: ranked_def toy_env_def toy_search_def sorted_wrt_take take_map[symmetric]
      split: if_splits list.splits)

theorem find_similar_postcondition_witness:
  "split (content mem1) \<noteq> []
   \<and> fst (find_similar toy_env mem1 10 (-3) corpus) = [(mem2, -12)]
   \<and> oplog (snd (find_similar toy_env mem1 10 (-3) corpus)) = [Op_search_ranked ''api OR key'' 11]
   \<and> m_id (fst (mem2, -12::real)) \<noteq> m_id mem1 \<and> snd (mem2, -12::real) \<le> -3
   \<and> int (length (fst (find_similar toy_env mem1 10 (-3) corpus))) \<le> max 10 1"
proof -
  have h: "split (content mem1) \<noteq> []" by (simp add: toy_defs)
  have v: "fst (find_similar toy_env mem1 10 (-3) corpus) = [(mem2, -12)]"
    by (simp add: toy_defs)
  have q: "join '' OR '' (take 10 (split (content mem1))) = ''api OR key''"
    by (simp add: toy_defs)
  from find_similar_postcondition[OF h, of toy_env 10 "-3" corpus] h v q show ?thesis
    by (simp add: corpus_def)
qed

theorem find_similar_limit_counterexample:
  "split (content mem1) \<noteq> []
   \<and> \<not> int (length (fst (find_similar toy_env mem1 0 (-3) corpus))) \<le> 0"
  by (simp add: toy_defs)

theorem threshold_monotone_witness:
  "ranked toy_env \<and> (-12::real) \<le> -3
   \<and> fst (find_similar toy_env mem2 10 (-3) corpus) = [(mem1, -7)]
   \<and> set (fst (find_similar toy_env mem2 10 (-12) corpus))
       \<subseteq> set (fst (find_similar toy_env mem2 10 (-3) corpus))"
proof -
  have le: "(-12::real) \<le> -3" by simp
  have v: "fst (find_similar toy_env mem2 10 (-3) corpus) = [(mem1, -7)]"
    by (simp add: toy_defs)
  from threshold_monotone[OF ranked_toy_env le, of mem2 10 corpus] ranked_toy_env v
  show ?thesis by simp
qed

theorem find_similar_absorbs_failure_witness:
  "split (content (mem1\<lparr>content := ''  ''\<rparr>)) = []
   \<and> fst (find_similar toy_env (mem1\<lparr>content := ''  ''\<rparr>) 10 (-3) corpus) = []
   \<and> search_ranked toy_env (rows corpus)
        (join '' OR '' (take 10 (split (content (mem1\<lparr>content := [CHR 0x22, CHR ''a'']\<rparr>))))) (10 + 1)
       = Inl Search_failed
   \<and> fst (find_similar toy_env (mem1\<lparr>content := [CHR 0x22, CHR ''a'']\<rparr>) 10 (-3) corpus) = []"
proof -
  have h1: "split (content (mem1\<lparr>content := ''  ''\<rparr>)) = []" by (simp add: toy_defs)
  have h2: "search_ranked toy_env (rows corpus)
        (join '' OR '' (take 10 (split (content (mem1\<lparr>content := [CHR 0x22, CHR ''a'']\<rparr>))))) (10 + 1)
       = Inl Search_failed" by (simp add: toy_defs)
  from find_similar_absorbs_failure[of "mem1\<lparr>content := ''  ''\<rparr>" toy_env corpus 10 "-3"] h1
  have a: "fst (find_similar toy_env (mem1\<lparr>content := ''  ''\<rparr>) 10 (-3) corpus) = []" by blast
  from find_similar_absorbs_failure[of "mem1\<lparr>content := [CHR 0x22, CHR ''a'']\<rparr>" toy_env corpus 10 "-3"] h2
  have b: "fst (find_similar toy_env (mem1\<lparr>content := [CHR 0x22, CHR ''a'']\<rparr>) 10 (-3) corpus) = []" by blast
  from h1 h2 a b show ?thesis by blast
qed

section \<open>Properties of the group builder\<close>

lemma find_similar_not_self:
  "p \<in> set (fst (find_similar e M limit t st)) \<Longrightarrow> m_id (fst p) \<noteq> m_id M"
proof (cases "split (content M) = []")
  case True
  assume "p \<in> set (fst (find_similar e M limit t st))"
  with True show ?thesis by (simp add: find_similar_no_tokens)
next
  case False
  assume p: "p \<in> set (fst (find_similar e M limit t st))"
  show ?thesis
  proof (cases "search_ranked e (rows st) (join '' OR '' (take 10 (split (content M)))) (limit + 1)")
    case (Inl ex)
    with False p show ?thesis by (simp add: find_similar_tokens)
  next
    case (Inr results)
    with False p have "p \<in> set (scan_results M limit t results [])"
      by (simp add: find_similar_tokens)
    with scan_results_members[of M limit t results "[]"] show ?thesis by auto
  qed
qed

lemma add_neighbours_shape:
  "add_neighbours similar (g0, s0) = (g, s) \<Longrightarrow>
   \<exists>new. g = g0 @ new \<and> s = s0 \<union> set (map m_id new) \<and> distinct (map m_id new)
         \<and> set (map m_id new) \<inter> s0 = {} \<and> set new \<subseteq> fst ` set similar"
proof (induction similar arbitrary: g0 s0)
  case Nil
  then show ?case by simp
next
  case (Cons p similar)
  obtain sim_mem score where p: "p = (sim_mem, score)" by (cases p)
  show ?case
  proof (cases "m_id sim_mem \<in> s0")
    case True
    with Cons.prems p have "add_neighbours similar (g0, s0) = (g, s)" by simp
    from Cons.IH[OF this] show ?thesis by auto
  next
    case False
    with Cons.prems p have
      "add_neighbours similar (g0 @ [sim_mem], insert (m_id sim_mem) s0) = (g, s)" by simp
    from Cons.IH[OF this] obtain new where new:
      "g = (g0 @ [sim_mem]) @ new" "s = insert (m_id sim_mem) s0 \<union> set (map m_id new)"
      "distinct (map m_id new)" "set (map m_id new) \<inter> insert (m_id sim_mem) s0 = {}"
      "set new \<subseteq> fst ` set similar" by blast
    have "g = g0 @ (sim_mem # new)" using new(1) by simp
    moreover have "s = s0 \<union> set (map m_id (sim_mem # new))" using new(2) by auto
    moreover have "distinct (map m_id (sim_mem # new))" using new(3,4) by auto
    moreover have "set (map m_id (sim_mem # new)) \<inter> s0 = {}" using new(4) False by auto
    moreover have "set (sim_mem # new) \<subseteq> fst ` set (p # similar)"
      using new(5) p by force
    ultimately show ?thesis by blast
  qed
qed

lemma group_step_inv:
  assumes "builder_inv b"
  shows "builder_inv (group_step e threshold memory b)"
proof (cases "m_id memory \<in> seen_ids b")
  case True
  with assms show ?thesis by (simp add: group_step_def)
next
  case False
  obtain similar st' where fs: "find_similar e memory 10 threshold (b_store b) = (similar, st')"
    by (cases "find_similar e memory 10 threshold (b_store b)")
  show ?thesis
  proof (cases "similar = []")
    case True
    with False fs assms show ?thesis by (simp add: group_step_def builder_inv_def)
  next
    case nonempty: False
    obtain g s where an: "add_neighbours similar ([memory], seen_ids b) = (g, s)"
      by (cases "add_neighbours similar ([memory], seen_ids b)")
    from add_neighbours_shape[OF an] obtain new where new:
      "g = [memory] @ new" "s = seen_ids b \<union> set (map m_id new)" "distinct (map m_id new)"
      "set (map m_id new) \<inter> seen_ids b = {}" "set new \<subseteq> fst ` set similar" by blast
    have notself: "m_id memory \<notin> set (map m_id new)"
    proof
      assume "m_id memory \<in> set (map m_id new)"
      then obtain x where x: "x \<in> set new" "m_id x = m_id memory" by auto
      with new(5) obtain p where "p \<in> set similar" "fst p = x" by auto
      with fs find_similar_not_self[of p e memory 10 threshold "b_store b"] x(2)
      show False by simp
    qed
    show ?thesis
    proof (cases "new = []")
      case True
      with False fs nonempty an new assms show ?thesis
        by (simp add: group_step_def builder_inv_def)
    next
      case grows: False
      then have len: "2 \<le> length g" using new(1) by (cases new) simp_all
      have step: "group_step e threshold memory b =
                    \<lparr>seen_ids = insert (m_id memory) s,
                     duplicate_groups = duplicate_groups b @ [g], b_store = st'\<rparr>"
        using False fs nonempty an len by (simp add: group_step_def)
      have ids: "group_ids (duplicate_groups b @ [g])
                   = group_ids (duplicate_groups b) @ (m_id memory # map m_id new)"
        using new(1) by (simp add: group_ids_def)
      from assms have seen: "seen_ids b = set (group_ids (duplicate_groups b))"
        and dist: "distinct (group_ids (duplicate_groups b))"
        and lens: "\<forall>g \<in> set (duplicate_groups b). 2 \<le> length g"
        by (simp_all add: builder_inv_def)
      have "distinct (group_ids (duplicate_groups b @ [g]))"
        unfolding ids using dist new(3,4) notself False seen by auto
      moreover have "insert (m_id memory) s = set (group_ids (duplicate_groups b @ [g]))"
        unfolding ids using new(2) seen by auto
      ultimately show ?thesis
        unfolding step builder_inv_def using lens len by simp
    qed
  qed
qed

lemma fold_group_step_inv:
  "builder_inv b \<Longrightarrow> builder_inv (fold (group_step e threshold) ms b)"
  by (induction ms arbitrary: b) (simp_all add: group_step_inv)

text \<open>
  C7. After any number \<open>k\<close> of iterations of the group-building loop (and so at its
  end), every emitted group has at least two members, no id occurs twice among the
  members of the emitted groups (neither in one group nor in two), and the visited set
  is exactly the set of the ids of those members.
\<close>

theorem builder_loop_invariant:
  "builder_inv (fold (group_step e threshold) (take k all_memories)
                  \<lparr>seen_ids = {}, duplicate_groups = [], b_store = st\<rparr>)"
  by (rule fold_group_step_inv) (simp add: builder_inv_def group_ids_def)

lemmas toy_builder_defs =
  build_groups_def group_step_def Let_def toy_defs

theorem builder_loop_invariant_witness:
  "duplicate_groups (build_groups toy_env (-3) (rows corpus) corpus) = [[mem1, mem2]]
   \<and> seen_ids (build_groups toy_env (-3) (rows corpus) corpus) = {Some 1, Some 2}
   \<and> builder_inv (fold (group_step toy_env (-3)) (take 3 (rows corpus))
                     \<lparr>seen_ids = {}, duplicate_groups = [], b_store = corpus\<rparr>)"
proof -
  have g: "duplicate_groups (build_groups toy_env (-3) (rows corpus) corpus) = [[mem1, mem2]]"
    by (simp add: toy_builder_defs)
  have s: "seen_ids (build_groups toy_env (-3) (rows corpus) corpus) = {Some 1, Some 2}"
    by (simp add: toy_builder_defs)
  from builder_loop_invariant[of toy_env "-3" 3 "rows corpus" corpus] g s
  show ?thesis by simp
qed

lemma add_neighbours_seen:
  "add_neighbours similar (g0, s0) = (g, s) \<Longrightarrow> s = s0 \<union> m_id ` fst ` set similar"
proof (induction similar arbitrary: g0 s0)
  case Nil
  then show ?case by simp
next
  case (Cons p similar)
  obtain sim_mem score where p: "p = (sim_mem, score)" by (cases p)
  show ?case
  proof (cases "m_id sim_mem \<in> s0")
    case True
    with Cons.prems p have "add_neighbours similar (g0, s0) = (g, s)" by simp
    from Cons.IH[OF this] True p show ?thesis by auto
  next
    case False
    with Cons.prems p have
      "add_neighbours similar (g0 @ [sim_mem], insert (m_id sim_mem) s0) = (g, s)" by simp
    from Cons.IH[OF this] p show ?thesis by auto
  qed
qed

lemma group_step_skip:
  assumes "m_id memory \<notin> seen_ids b"
    and "fst (find_similar e memory 10 threshold (b_store b)) = []"
  shows "group_step e threshold memory b
           = b\<lparr>b_store := snd (find_similar e memory 10 threshold (b_store b))\<rparr>"
proof -
  obtain similar st' where fs: "find_similar e memory 10 threshold (b_store b) = (similar, st')"
    by (cases "find_similar e memory 10 threshold (b_store b)")
  with assms(2) have "similar = []" by simp
  with assms(1) fs show ?thesis by (simp add: group_step_def)
qed

lemma group_step_pulls_neighbour:
  assumes unseen: "m_id later \<notin> seen_ids b" "m_id x \<notin> seen_ids b"
    and nb: "(x, score) \<in> set (fst (find_similar e later 10 threshold (b_store b)))"
  shows "\<exists>g. duplicate_groups (group_step e threshold later b) = duplicate_groups b @ [g]
             \<and> hd g = later \<and> m_id x \<in> m_id ` set g"
proof -
  obtain similar st' where fs: "find_similar e later 10 threshold (b_store b) = (similar, st')"
    by (cases "find_similar e later 10 threshold (b_store b)")
  with nb have mem: "(x, score) \<in> set similar" by simp
  then have nonempty: "similar \<noteq> []" by auto
  obtain g s where an: "add_neighbours similar ([later], seen_ids b) = (g, s)"
    by (cases "add_neighbours similar ([later], seen_ids b)")
  from add_neighbours_shape[OF an] obtain new where new:
    "g = [later] @ new" "s = seen_ids b \<union> set (map m_id new)" by blast
  from add_neighbours_seen[OF an] mem have "m_id x \<in> s" by force
  with new(2) unseen(2) have inx: "m_id x \<in> set (map m_id new)" by auto
  then have "new \<noteq> []" by auto
  then have len: "1 < length g" using new(1) by (cases new) simp_all
  have "duplicate_groups (group_step e threshold later b) = duplicate_groups b @ [g]"
    using unseen(1) fs nonempty an len by (simp add: group_step_def)
  moreover have "hd g = later" using new(1) by simp
  moreover have "m_id x \<in> m_id ` set g" using inx new(1) by auto
  ultimately show ?thesis by blast
qed

text \<open>
  C8. A seed that is not yet visited and whose oracle query (limit 10, the caller's
  threshold) yields no qualifying neighbour leaves the visited set and the emitted
  groups as they were, so its id is still unvisited; and a later seed whose
  neighbours include that memory then emits a group that contains it.
\<close>

theorem unvisited_seed_asymmetry:
  assumes "m_id memory \<notin> seen_ids b"
    and "fst (find_similar e memory 10 threshold (b_store b)) = []"
  shows "seen_ids (group_step e threshold memory b) = seen_ids b
         \<and> duplicate_groups (group_step e threshold memory b) = duplicate_groups b
         \<and> m_id memory \<notin> seen_ids (group_step e threshold memory b)
         \<and> (\<forall>later score.
               m_id later \<notin> seen_ids (group_step e threshold memory b)
               \<and> (memory, score) \<in> set (fst (find_similar e later 10 threshold
                                              (b_store (group_step e threshold memory b))))
               \<longrightarrow> (\<exists>g. duplicate_groups
                          (group_step e threshold later (group_step e threshold memory b))
                        = duplicate_groups b @ [g]
                        \<and> hd g = later \<and> m_id memory \<in> m_id ` set g))"
proof -
  let ?b' = "group_step e threshold memory b"
  have skip: "?b' = b\<lparr>b_store := snd (find_similar e memory 10 threshold (b_store b))\<rparr>"
    by (rule group_step_skip[OF assms])
  have s: "seen_ids ?b' = seen_ids b" and g: "duplicate_groups ?b' = duplicate_groups b"
    by (simp_all add: skip)
  have "\<exists>g. duplicate_groups (group_step e threshold later ?b') = duplicate_groups b @ [g]
             \<and> hd g = later \<and> m_id memory \<in> m_id ` set g"
    if "m_id later \<notin> seen_ids ?b'"
      and "(memory, score) \<in> set (fst (find_similar e later 10 threshold (b_store ?b')))"
    for later score
  proof -
    have "m_id memory \<notin> seen_ids ?b'" using assms(1) s by simp
    from group_step_pulls_neighbour[OF that(1) this that(2)] g show ?thesis by simp
  qed
  with s g assms(1) show ?thesis by blast
qed

theorem unvisited_seed_asymmetry_witness:
  "m_id mem4 \<notin> seen_ids \<lparr>seen_ids = {}, duplicate_groups = [], b_store = corpus_asym\<rparr>
   \<and> fst (find_similar toy_env mem4 10 (-3)
            (b_store \<lparr>seen_ids = {}, duplicate_groups = [], b_store = corpus_asym\<rparr>)) = []
   \<and> seen_ids (group_step toy_env (-3) mem4
                 \<lparr>seen_ids = {}, duplicate_groups = [], b_store = corpus_asym\<rparr>) = {}
   \<and> duplicate_groups (build_groups toy_env (-3) [mem4, mem5] corpus_asym) = [[mem5, mem4]]"
proof -
  let ?b = "\<lparr>seen_ids = {}, duplicate_groups = [], b_store = corpus_asym\<rparr>"
  have h1: "m_id mem4 \<notin> seen_ids ?b" by simp
  have h2: "fst (find_similar toy_env mem4 10 (-3) (b_store ?b)) = []"
    by (simp add: toy_defs)
  have g: "duplicate_groups (build_groups toy_env (-3) [mem4, mem5] corpus_asym) = [[mem5, mem4]]"
    by (simp add: toy_builder_defs)
  from unvisited_seed_asymmetry[OF h1 h2]
  have "seen_ids (group_step toy_env (-3) mem4 ?b) = seen_ids ?b" by blast
  with h1 h2 g show ?thesis by simp
qed

section \<open>Properties of the merge policy\<close>

lemma fold_union_tags:
  "fold (\<lambda>mem s. s \<union> set (tags mem)) rest S = S \<union> (\<Union>m \<in> set rest. set (tags m))"
  by (induction rest arbitrary: S) auto


lemma rows_fold_delete:
  "rows (fold delete rest st) = filter (\<lambda>r. m_id r \<notin> m_id ` set rest) (rows st)"
proof (induction rest arbitrary: st)
  case Nil
  then show ?case by simp
next
  case (Cons m rest)
  have "rows (fold delete (m # rest) st)
          = filter (\<lambda>r. m_id r \<notin> m_id ` set rest) (filter (\<lambda>r. m_id r \<noteq> m_id m) (rows st))"
    by (simp add: Cons.IH) (simp add: delete_def)
  also have "\<dots> = filter (\<lambda>r. m_id r \<notin> m_id ` set (m # rest)) (rows st)"
    by (auto intro: filter_cong)
  finally show ?case .
qed

lemma oplog_fold_delete:
  "oplog (fold delete rest st) = oplog st @ map Op_delete rest"
proof (induction rest arbitrary: st)
  case Nil
  then show ?case by simp
next
  case (Cons m rest)
  show ?case by (simp add: Cons.IH) (simp add: delete_def)
qed

lemma save_existing:
  assumes "m_id m = Some j" "Some j \<in> set (map m_id (rows st))"
  shows "save t m st =
           (m\<lparr>updated_at := Some t\<rparr>,
            st\<lparr>rows := map (\<lambda>r. if m_id r = Some j then m\<lparr>updated_at := Some t\<rparr> else r) (rows st),
               oplog := oplog st @ [Op_save m]\<rparr>)"
  using assms by (simp add: save_def Let_def)

lemma not_mixed_keys:
  assumes "\<not> mixed_keys grp" "m \<in> set grp" "k \<in> set grp"
  shows "(created_at m = None) = (created_at k = None)"
proof -
  have key: "(created_key x = Naive_min) = (created_at x = None)" for x
    by (simp add: created_key_def split: option.splits)
  from assms(1) have "(\<forall>x \<in> set grp. created_at x \<noteq> None) \<or> (\<forall>x \<in> set grp. created_at x = None)"
    unfolding mixed_keys_def list_ex_iff key by auto
  with assms(2,3) show ?thesis by auto
qed

lemma key_order_eq:
  assumes "\<not> mixed_keys grp" "m \<in> set grp" "k \<in> set grp"
  shows "(key_order (created_key m) = key_order (created_key k)) = (created_at m = created_at k)"
  using not_mixed_keys[OF assms]
  by (cases "created_at m"; cases "created_at k") (simp_all add: key_order_def created_key_def)

lemma key_order_le:
  assumes "\<not> mixed_keys grp" "m \<in> set grp" "k \<in> set grp"
    and "key_order (created_key k) \<le> key_order (created_key m)" and "created_at m = Some t"
  shows "\<exists>t'. created_at k = Some t' \<and> t \<le> t'"
  using not_mixed_keys[OF assms(1,2,3)] assms(4,5)
  by (cases "created_at k") (simp_all add: key_order_def created_key_def)

text \<open>What the stable descending sort puts first.\<close>

lemma sort_newest_first_Cons:
  assumes "sort_newest_first grp = Inr (k # rest)"
  shows "mset grp = mset (k # rest)"
    and "\<not> mixed_keys grp"
    and "\<forall>m \<in> set grp. \<forall>t. created_at m = Some t \<longrightarrow> (\<exists>t'. created_at k = Some t' \<and> t \<le> t')"
    and "k = hd (filter (\<lambda>m. created_at m = created_at k) grp)"
proof -
  let ?f = "\<lambda>m. key_order (created_key m)"
  from assms show nm: "\<not> mixed_keys grp"
    by (simp add: sort_newest_first_def split: if_splits)
  from assms have srt: "sort_key ?f grp = k # rest"
    by (simp add: sort_newest_first_def split: if_splits)
  have "mset (sort_key ?f grp) = mset grp" by simp
  with srt show ms: "mset grp = mset (k # rest)" by simp
  from mset_eq_setD[OF ms] have sg: "set grp = insert k (set rest)" by simp
  then have kin: "k \<in> set grp" by simp
  have "sorted (map ?f (sort_key ?f grp))" by (rule sorted_sort_key)
  with srt have "\<forall>m \<in> set rest. ?f k \<le> ?f m" by simp
  with sg have le: "\<forall>m \<in> set grp. ?f k \<le> ?f m" by simp
  show "\<forall>m \<in> set grp. \<forall>t. created_at m = Some t \<longrightarrow> (\<exists>t'. created_at k = Some t' \<and> t \<le> t')"
  proof (intro ballI allI impI)
    fix m t assume m: "m \<in> set grp" and t: "created_at m = Some t"
    from le m have "?f k \<le> ?f m" by blast
    from key_order_le[OF nm m kin this t] show "\<exists>t'. created_at k = Some t' \<and> t \<le> t'" .
  qed
  have "filter (\<lambda>m. ?f m = ?f k) (sort_key ?f grp) = filter (\<lambda>m. ?f m = ?f k) grp"
    by (rule sort_key_stable)
  with srt have st: "filter (\<lambda>m. ?f m = ?f k) grp = k # filter (\<lambda>m. ?f m = ?f k) rest"
    by simp
  have "filter (\<lambda>m. created_at m = created_at k) grp = filter (\<lambda>m. ?f m = ?f k) grp"
    by (rule filter_cong[OF refl]) (simp add: key_order_eq[OF nm _ kin])
  with st show "k = hd (filter (\<lambda>m. created_at m = created_at k) grp)" by simp
qed

lemma sort_newest_first_nonempty:
  assumes "grp \<noteq> []" "\<not> mixed_keys grp"
  shows "\<exists>k rest. sort_newest_first grp = Inr (k # rest)"
proof -
  let ?f = "\<lambda>m. key_order (created_key m)"
  from assms(1) have "length (sort_key ?f grp) \<noteq> 0" by simp
  then obtain k rest where "sort_key ?f grp = k # rest" by (cases "sort_key ?f grp") auto
  with assms(2) show ?thesis by (simp add: sort_newest_first_def)
qed

text \<open>A group has mixed keys exactly when two of its keys cannot be compared.\<close>

lemma mixed_keys_iff:
  "mixed_keys grp =
     (\<exists>a \<in> set grp. \<exists>b \<in> set grp.
        key_less (created_key a) (created_key b) = Inl Type_error)"
proof
  assume "mixed_keys grp"
  then obtain a b where ab: "a \<in> set grp" "created_key a = Naive_min"
    "b \<in> set grp" "created_key b \<noteq> Naive_min"
    by (auto simp: mixed_keys_def list_ex_iff)
  from ab(4) obtain t where "created_key b = Aware t" by (cases "created_key b") auto
  with ab(2) have "key_less (created_key a) (created_key b) = Inl Type_error" by simp
  with ab(1,3) show "\<exists>a \<in> set grp. \<exists>b \<in> set grp.
        key_less (created_key a) (created_key b) = Inl Type_error" by blast
next
  assume "\<exists>a \<in> set grp. \<exists>b \<in> set grp.
        key_less (created_key a) (created_key b) = Inl Type_error"
  then obtain a b where ab: "a \<in> set grp" "b \<in> set grp"
    "key_less (created_key a) (created_key b) = Inl Type_error" by blast
  from ab(3) have "(created_key a = Naive_min \<and> created_key b \<noteq> Naive_min)
                   \<or> (created_key a \<noteq> Naive_min \<and> created_key b = Naive_min)"
    by (cases "created_key a"; cases "created_key b") simp_all
  with ab(1,2) show "mixed_keys grp" by (auto simp: mixed_keys_def list_ex_iff)
qed

text \<open>A group with a naive and an aware key is not merged: the sort raises.\<close>

lemma merge_group_mixed: "mixed_keys grp \<Longrightarrow> merge_group e i grp st = Inl Type_error"
  by (simp add: merge_group_def sort_newest_first_def)

lemma merge_group_result:
  assumes srt: "sort_newest_first grp = Inr (k # rest)"
    and idk: "m_id k = Some j"
    and inst: "Some j \<in> set (map m_id (rows st))"
  shows "merge_group e i grp st =
           Inr \<lparr>keeper_saved = k\<lparr>tags := list_of_set e (union_tags grp),
                                  updated_at := Some (now e i)\<rparr>,
                deleted_count = length grp - 1,
                m_store =
                  \<lparr>rows = filter (\<lambda>r. m_id r \<notin> m_id ` set rest)
                            (map (\<lambda>r. if m_id r = Some j
                                       then k\<lparr>tags := list_of_set e (union_tags grp),
                                              updated_at := Some (now e i)\<rparr>
                                       else r) (rows st)),
                   oplog = oplog st @ [Op_save (k\<lparr>tags := list_of_set e (union_tags grp)\<rparr>)]
                             @ map Op_delete rest\<rparr>\<rparr>"
proof -
  from sort_newest_first_Cons(1)[OF srt] have "set grp = set (k # rest)"
    by (rule mset_eq_setD)
  then have ut: "fold (\<lambda>mem s. s \<union> set (tags mem)) rest (set (tags k)) = union_tags grp"
    by (simp add: fold_union_tags union_tags_def)
  have sv: "save (now e i) (k\<lparr>tags := list_of_set e (union_tags grp)\<rparr>) st =
              (k\<lparr>tags := list_of_set e (union_tags grp), updated_at := Some (now e i)\<rparr>,
               st\<lparr>rows := map (\<lambda>r. if m_id r = Some j
                                      then k\<lparr>tags := list_of_set e (union_tags grp),
                                             updated_at := Some (now e i)\<rparr>
                                      else r) (rows st),
                  oplog := oplog st @ [Op_save (k\<lparr>tags := list_of_set e (union_tags grp)\<rparr>)]\<rparr>)"
    using save_existing[of "k\<lparr>tags := list_of_set e (union_tags grp)\<rparr>" j st "now e i"]
      idk inst by simp
  show ?thesis
    by (simp add: merge_group_def srt ut sv rows_fold_delete oplog_fold_delete)
qed

lemma filter_unique_key:
  "distinct (map f xs) \<Longrightarrow> x \<in> set xs \<Longrightarrow> filter (\<lambda>y. f y = f x) xs = [x]"
proof (induction xs)
  case Nil
  then show ?case by simp
next
  case (Cons a xs)
  show ?case
  proof (cases "a = x")
    case True
    from Cons.prems True have "f x \<notin> f ` set xs" by simp
    then have "\<forall>y \<in> set xs. f y \<noteq> f x" by (metis imageI)
    then have "filter (\<lambda>y. f y = f x) xs = []" by (simp add: filter_empty_conv)
    with True show ?thesis by simp
  next
    case False
    with Cons.prems have x: "x \<in> set xs" and d: "distinct (map f xs)" by auto
    from Cons.prems x have "f a \<noteq> f x" by auto
    with Cons.IH[OF d x] show ?thesis by simp
  qed
qed

lemma filter_filter_absorb:
  "(\<And>x. P x \<Longrightarrow> Q x) \<Longrightarrow> filter P (filter Q xs) = filter P xs"
  by (induction xs) auto

lemma find_of_filter: "filter P xs = [x] \<Longrightarrow> find P xs = Some x"
  by (induction xs) (auto split: if_splits)

lemma length_filter_ids:
  assumes "distinct (map f xs)" "distinct (map f ys)" "f ` set ys \<subseteq> f ` set xs"
  shows "length (filter (\<lambda>x. f x \<in> f ` set ys) xs) = length ys"
proof -
  have "length (filter (\<lambda>x. f x \<in> f ` set ys) xs)
          = length (filter (\<lambda>i. i \<in> f ` set ys) (map f xs))"
    by (simp add: filter_map comp_def)
  also have "\<dots> = card ({i. i \<in> f ` set ys} \<inter> set (map f xs))"
    using assms(1) by (rule distinct_length_filter)
  also have "{i. i \<in> f ` set ys} \<inter> set (map f xs) = set (map f ys)"
    using assms(3) by auto
  also have "card (set (map f ys)) = length ys"
    using distinct_card[OF assms(2)] by simp
  finally show ?thesis .
qed

text \<open>
  The merge of a group whose keys can be compared and whose members have distinct ids,
  all of them ids of rows of a well-formed store.
\<close>

lemma merge_group_facts:
  assumes ok: "store_ok st" and ne: "grp \<noteq> []" and dg: "distinct (map m_id grp)"
    and sub: "m_id ` set grp \<subseteq> m_id ` set (rows st)" and nm: "\<not> mixed_keys grp"
  shows "\<exists>k rest j r.
           sort_newest_first grp = Inr (k # rest) \<and> m_id k = Some j
           \<and> set grp = insert k (set rest) \<and> m_id k \<notin> m_id ` set rest
           \<and> length rest = length grp - 1
           \<and> merge_group e i grp st = Inr r
           \<and> keeper_saved r = k\<lparr>tags := list_of_set e (union_tags grp),
                                  updated_at := Some (now e i)\<rparr>
           \<and> deleted_count r = length grp - 1
           \<and> oplog (m_store r) = oplog st
                @ [Op_save (k\<lparr>tags := list_of_set e (union_tags grp)\<rparr>)] @ map Op_delete rest
           \<and> filter (\<lambda>x. m_id x = Some j) (rows (m_store r)) = [keeper_saved r]
           \<and> (\<forall>x \<in> set (rows (m_store r)). m_id x \<notin> m_id ` set rest)
           \<and> length (rows (m_store r)) = length (rows st) - (length grp - 1)
           \<and> filter (\<lambda>x. m_id x \<notin> m_id ` set grp) (rows (m_store r))
               = filter (\<lambda>x. m_id x \<notin> m_id ` set grp) (rows st)"
proof -
  from sort_newest_first_nonempty[OF ne nm] obtain k rest where
    srt: "sort_newest_first grp = Inr (k # rest)" by blast
  note ms = sort_newest_first_Cons(1)[OF srt]
  from mset_eq_setD[OF ms] have sg: "set grp = insert k (set rest)" by simp
  from ms have "mset (map m_id grp) = mset (map m_id (k # rest))" by simp
  from mset_eq_imp_distinct_iff[OF this] dg have dk: "distinct (map m_id (k # rest))"
    by blast
  then have notin: "m_id k \<notin> m_id ` set rest" and dr: "distinct (map m_id rest)" by auto
  from ms have "size (mset grp) = size (mset (k # rest))" by simp
  then have len: "length rest = length grp - 1" by simp
  from sub sg have kin: "m_id k \<in> set (map m_id (rows st))" by auto
  with ok obtain j where idk: "m_id k = Some j"
    by (cases "m_id k") (auto simp: store_ok_def)
  from ok have ds: "distinct (map m_id (rows st))" by (simp add: store_ok_def)
  let ?k' = "k\<lparr>tags := list_of_set e (union_tags grp), updated_at := Some (now e i)\<rparr>"
  let ?upd = "\<lambda>r. if m_id r = Some j then ?k' else r"
  let ?rows' = "filter (\<lambda>r. m_id r \<notin> m_id ` set rest) (map ?upd (rows st))"
  from kin idk have inst: "Some j \<in> set (map m_id (rows st))" by simp
  note res = merge_group_result[OF srt idk inst, of e i]
  have idupd: "m_id (?upd x) = m_id x" for x using idk by simp
  from inst obtain x0 where x0: "x0 \<in> set (rows st)" "m_id x0 = Some j" by auto
  have "filter (\<lambda>x. m_id x = Some j) ?rows'
          = filter (\<lambda>x. m_id x = Some j) (map ?upd (rows st))"
    using notin idk by (intro filter_filter_absorb) simp
  also have "\<dots> = map ?upd (filter (\<lambda>x. m_id x = m_id x0) (rows st))"
    using x0(2) by (simp add: filter_map comp_def idupd)
  also have "\<dots> = [?k']"
    using filter_unique_key[OF ds x0(1)] x0(2) by simp
  finally have one: "filter (\<lambda>x. m_id x = Some j) ?rows' = [?k']" .
  have gone: "\<forall>x \<in> set ?rows'. m_id x \<notin> m_id ` set rest" by auto
  have subr: "m_id ` set rest \<subseteq> m_id ` set (rows st)" using sub sg by auto
  have "length ?rows' = length (filter (\<lambda>r. m_id r \<notin> m_id ` set rest) (rows st))"
    by (simp add: filter_map comp_def idupd)
  also have "\<dots> = length (rows st) - length (filter (\<lambda>r. m_id r \<in> m_id ` set rest) (rows st))"
    using sum_length_filter_compl[of "\<lambda>r. m_id r \<in> m_id ` set rest" "rows st"] by simp
  also have "\<dots> = length (rows st) - length rest"
    by (simp add: length_filter_ids[OF ds dr subr])
  finally have cnt: "length ?rows' = length (rows st) - (length grp - 1)" using len by simp
  have "filter (\<lambda>x. m_id x \<notin> m_id ` set grp) ?rows'
          = filter (\<lambda>x. m_id x \<notin> m_id ` set grp) (map ?upd (rows st))"
    using sg by (intro filter_filter_absorb) auto
  also have "\<dots> = map ?upd (filter (\<lambda>x. m_id x \<notin> m_id ` set grp) (rows st))"
    by (simp add: filter_map comp_def idupd)
  also have "\<dots> = filter (\<lambda>x. m_id x \<notin> m_id ` set grp) (rows st)"
  proof -
    have "?upd x = x" if "x \<in> set (filter (\<lambda>x. m_id x \<notin> m_id ` set grp) (rows st))" for x
      using that sg idk by auto
    then show ?thesis by (rule map_idI)
  qed
  finally have frame: "filter (\<lambda>x. m_id x \<notin> m_id ` set grp) ?rows'
                         = filter (\<lambda>x. m_id x \<notin> m_id ` set grp) (rows st)" .
  define r where
    "r = \<lparr>keeper_saved = ?k', deleted_count = length grp - 1,
          m_store = \<lparr>rows = ?rows',
             oplog = oplog st @ [Op_save (k\<lparr>tags := list_of_set e (union_tags grp)\<rparr>)]
                       @ map Op_delete rest\<rparr>\<rparr>"
  have res': "merge_group e i grp st = Inr r" unfolding r_def by (rule res)
  have ks: "keeper_saved r = ?k'" by (simp add: r_def)
  have dc: "deleted_count r = length grp - 1" by (simp add: r_def)
  have rw: "rows (m_store r) = ?rows'" by (simp add: r_def)
  have ol: "oplog (m_store r) = oplog st
              @ [Op_save (k\<lparr>tags := list_of_set e (union_tags grp)\<rparr>)] @ map Op_delete rest"
    by (simp add: r_def)
  have one': "filter (\<lambda>x. m_id x = Some j) (rows (m_store r)) = [keeper_saved r]"
    unfolding rw ks by (rule one)
  have gone': "\<forall>x \<in> set (rows (m_store r)). m_id x \<notin> m_id ` set rest"
    unfolding rw by (rule gone)
  have cnt': "length (rows (m_store r)) = length (rows st) - (length grp - 1)"
    unfolding rw by (rule cnt)
  have frame': "filter (\<lambda>x. m_id x \<notin> m_id ` set grp) (rows (m_store r))
                  = filter (\<lambda>x. m_id x \<notin> m_id ` set grp) (rows st)"
    unfolding rw by (rule frame)
  have "sort_newest_first grp = Inr (k # rest) \<and> m_id k = Some j
           \<and> set grp = insert k (set rest) \<and> m_id k \<notin> m_id ` set rest
           \<and> length rest = length grp - 1
           \<and> merge_group e i grp st = Inr r
           \<and> keeper_saved r = k\<lparr>tags := list_of_set e (union_tags grp),
                                  updated_at := Some (now e i)\<rparr>
           \<and> deleted_count r = length grp - 1
           \<and> oplog (m_store r) = oplog st
                @ [Op_save (k\<lparr>tags := list_of_set e (union_tags grp)\<rparr>)] @ map Op_delete rest
           \<and> filter (\<lambda>x. m_id x = Some j) (rows (m_store r)) = [keeper_saved r]
           \<and> (\<forall>x \<in> set (rows (m_store r)). m_id x \<notin> m_id ` set rest)
           \<and> length (rows (m_store r)) = length (rows st) - (length grp - 1)
           \<and> filter (\<lambda>x. m_id x \<notin> m_id ` set grp) (rows (m_store r))
               = filter (\<lambda>x. m_id x \<notin> m_id ` set grp) (rows st)"
    by (intro conjI srt idk sg notin len res' ks dc ol one' gone' cnt' frame')
  then show ?thesis by (intro exI)
qed


text \<open>
  C2. When dedupe merges a group (the sort does not raise) whose members are rows of a
  well-formed store with distinct ids, the keeper is a member whose \<open>created_at\<close> is
  the greatest of the group, the first such member in the group's order; the row
  stored under its id afterwards is the keeper's row with only \<open>tags\<close> and
  \<open>updated_at\<close> replaced, so \<open>id\<close> and \<open>created_at\<close> are as before; and it is
  the only row of the group that remains.
\<close>

theorem survivor_identity:
  assumes "store_ok st" and "grp \<noteq> []" and "distinct (map m_id grp)"
    and "set grp \<subseteq> set (rows st)" and "\<not> mixed_keys grp"
  shows "\<exists>r k j.
           merge_group e i grp st = Inr r \<and> k \<in> set grp \<and> m_id k = Some j
           \<and> (\<forall>m \<in> set grp. \<forall>t. created_at m = Some t
                  \<longrightarrow> (\<exists>t'. created_at k = Some t' \<and> t \<le> t'))
           \<and> k = hd (filter (\<lambda>m. created_at m = created_at k) grp)
           \<and> from_id st j = Some k
           \<and> from_id (m_store r) j = Some (keeper_saved r)
           \<and> keeper_saved r = k\<lparr>tags := list_of_set e (union_tags grp),
                                  updated_at := Some (now e i)\<rparr>
           \<and> m_id (keeper_saved r) = m_id k
           \<and> created_at (keeper_saved r) = created_at k
           \<and> filter (\<lambda>x. m_id x \<in> m_id ` set grp) (rows (m_store r)) = [keeper_saved r]"
proof -
  from assms(4) have sub: "m_id ` set grp \<subseteq> m_id ` set (rows st)" by auto
  from merge_group_facts[OF assms(1,2,3) sub assms(5), of e i] obtain k rest j r where f:
    "sort_newest_first grp = Inr (k # rest)"
    "m_id k = Some j" "set grp = insert k (set rest)" "merge_group e i grp st = Inr r"
    "keeper_saved r = k\<lparr>tags := list_of_set e (union_tags grp), updated_at := Some (now e i)\<rparr>"
    "filter (\<lambda>x. m_id x = Some j) (rows (m_store r)) = [keeper_saved r]"
    "\<forall>x \<in> set (rows (m_store r)). m_id x \<notin> m_id ` set rest"
    by blast
  have kin: "k \<in> set grp" using f(3) by simp
  with assms(4) have krow: "k \<in> set (rows st)" by auto
  from assms(1) have ds: "distinct (map m_id (rows st))" by (simp add: store_ok_def)
  from filter_unique_key[OF ds krow] f(2)
  have before: "from_id st j = Some k" by (simp add: from_id_def find_of_filter)
  from f(6) have after: "from_id (m_store r) j = Some (keeper_saved r)"
    by (simp add: from_id_def find_of_filter)
  have "filter (\<lambda>x. m_id x \<in> m_id ` set grp) (rows (m_store r))
          = filter (\<lambda>x. m_id x = Some j) (rows (m_store r))"
    using f(2,3,7) by (intro filter_cong) auto
  with f(6) have one: "filter (\<lambda>x. m_id x \<in> m_id ` set grp) (rows (m_store r)) = [keeper_saved r]"
    by simp
  note newest = sort_newest_first_Cons(3)[OF f(1)]
  note first = sort_newest_first_Cons(4)[OF f(1)]
  have ik: "m_id (keeper_saved r) = m_id k" and ck: "created_at (keeper_saved r) = created_at k"
    using f(5) by simp_all
  have "merge_group e i grp st = Inr r \<and> k \<in> set grp \<and> m_id k = Some j
           \<and> (\<forall>m \<in> set grp. \<forall>t. created_at m = Some t
                  \<longrightarrow> (\<exists>t'. created_at k = Some t' \<and> t \<le> t'))
           \<and> k = hd (filter (\<lambda>m. created_at m = created_at k) grp)
           \<and> from_id st j = Some k
           \<and> from_id (m_store r) j = Some (keeper_saved r)
           \<and> keeper_saved r = k\<lparr>tags := list_of_set e (union_tags grp),
                                  updated_at := Some (now e i)\<rparr>
           \<and> m_id (keeper_saved r) = m_id k
           \<and> created_at (keeper_saved r) = created_at k
           \<and> filter (\<lambda>x. m_id x \<in> m_id ` set grp) (rows (m_store r)) = [keeper_saved r]"
    by (intro conjI f(4) kin f(2) newest first before after f(5) ik ck one)
  then show ?thesis by (intro exI)
qed

lemma set_iteration_ok_toy_env: "set_iteration_ok toy_env"
  by (simp add: set_iteration_ok_def toy_env_def)

lemma store_ok_corpus: "store_ok corpus"
  by (simp add: store_ok_def toy_defs)

lemma toy_ids:
  "m_id mem1 = Some 1" "m_id mem2 = Some 2" "m_id mem3 = Some 3"
  by (simp_all add: toy_defs)

lemma toy_created:
  "created_at mem1 = Some 10" "created_at mem2 = Some 20"
  by (simp_all add: toy_defs)

lemma not_mixed_toy: "\<not> mixed_keys [mem1, mem2]"
  by (simp add: mixed_keys_def created_key_def toy_created)

lemma sort_toy: "sort_newest_first [mem1, mem2] = Inr [mem2, mem1]"
  by (simp add: sort_newest_first_def mixed_keys_def created_key_def key_order_def toy_created)


theorem survivor_identity_witness:
  "store_ok corpus \<and> [mem1, mem2] \<noteq> [] \<and> distinct (map m_id [mem1, mem2])
   \<and> set [mem1, mem2] \<subseteq> set (rows corpus) \<and> \<not> mixed_keys [mem1, mem2]
   \<and> created_at mem1 = Some 10 \<and> created_at mem2 = Some 20
   \<and> (\<exists>r. merge_group toy_env 1 [mem1, mem2] corpus = Inr r
            \<and> keeper_saved r = mem2\<lparr>tags := list_of_set toy_env (union_tags [mem1, mem2]),
                                     updated_at := Some (now toy_env 1)\<rparr>
            \<and> m_id (keeper_saved r) = Some 2
            \<and> created_at (keeper_saved r) = Some 20
            \<and> from_id corpus 2 = Some mem2
            \<and> from_id (m_store r) 2 = Some (keeper_saved r)
            \<and> filter (\<lambda>x. m_id x \<in> m_id ` set [mem1, mem2]) (rows (m_store r)) = [keeper_saved r])"
proof -
  have h2: "[mem1, mem2] \<noteq> []" by simp
  have h3: "distinct (map m_id [mem1, mem2])" by (simp add: toy_ids)
  have h4: "set [mem1, mem2] \<subseteq> set (rows corpus)" by (simp add: corpus_def)
  from survivor_identity[OF store_ok_corpus h2 h3 h4 not_mixed_toy, of toy_env 1]
  obtain r k j where f:
    "merge_group toy_env 1 [mem1, mem2] corpus = Inr r" "k \<in> set [mem1, mem2]"
    "m_id k = Some j"
    "\<forall>m \<in> set [mem1, mem2]. \<forall>t. created_at m = Some t
        \<longrightarrow> (\<exists>t'. created_at k = Some t' \<and> t \<le> t')"
    "from_id corpus j = Some k"
    "from_id (m_store r) j = Some (keeper_saved r)"
    "keeper_saved r = k\<lparr>tags := list_of_set toy_env (union_tags [mem1, mem2]),
                         updated_at := Some (now toy_env 1)\<rparr>"
    "m_id (keeper_saved r) = m_id k"
    "created_at (keeper_saved r) = created_at k"
    "filter (\<lambda>x. m_id x \<in> m_id ` set [mem1, mem2]) (rows (m_store r)) = [keeper_saved r]"
    by blast
  from f(4) toy_created(2) obtain t' where t': "created_at k = Some t'" "20 \<le> t'" by auto
  from f(2) have "k = mem1 \<or> k = mem2" by simp
  with t' toy_created(1) have k: "k = mem2" by auto
  with f(3) toy_ids(2) have j: "j = 2" by simp
  have "merge_group toy_env 1 [mem1, mem2] corpus = Inr r
            \<and> keeper_saved r = mem2\<lparr>tags := list_of_set toy_env (union_tags [mem1, mem2]),
                                     updated_at := Some (now toy_env 1)\<rparr>
            \<and> m_id (keeper_saved r) = Some 2
            \<and> created_at (keeper_saved r) = Some 20
            \<and> from_id corpus 2 = Some mem2
            \<and> from_id (m_store r) 2 = Some (keeper_saved r)
            \<and> filter (\<lambda>x. m_id x \<in> m_id ` set [mem1, mem2]) (rows (m_store r)) = [keeper_saved r]"
    using f(1,5,6,7,8,9,10) k j toy_ids(2) toy_created(2) by simp
  then have ex: "\<exists>r. merge_group toy_env 1 [mem1, mem2] corpus = Inr r
            \<and> keeper_saved r = mem2\<lparr>tags := list_of_set toy_env (union_tags [mem1, mem2]),
                                     updated_at := Some (now toy_env 1)\<rparr>
            \<and> m_id (keeper_saved r) = Some 2
            \<and> created_at (keeper_saved r) = Some 20
            \<and> from_id corpus 2 = Some mem2
            \<and> from_id (m_store r) 2 = Some (keeper_saved r)
            \<and> filter (\<lambda>x. m_id x \<in> m_id ` set [mem1, mem2]) (rows (m_store r)) = [keeper_saved r]"
    by (rule exI)
  show ?thesis
    by (intro conjI store_ok_corpus h2 h3 h4 not_mixed_toy toy_created ex)
qed

section \<open>Properties of the dedupe command\<close>

lemma find_similar_writes:
  "filter is_write (oplog (snd (find_similar e M limit t st))) = filter is_write (oplog st)"
  by (cases "split (content M) = []") (simp_all add: find_similar_no_tokens find_similar_tokens)

lemma group_step_store:
  "rows (b_store (group_step e threshold memory b)) = rows (b_store b)
   \<and> filter is_write (oplog (b_store (group_step e threshold memory b)))
       = filter is_write (oplog (b_store b))"
proof (cases "m_id memory \<in> seen_ids b")
  case True
  then show ?thesis by (simp add: group_step_def)
next
  case False
  obtain similar st' where fs: "find_similar e memory 10 threshold (b_store b) = (similar, st')"
    by (cases "find_similar e memory 10 threshold (b_store b)")
  from fs find_similar_rows[of e memory 10 threshold "b_store b"]
  have r: "rows st' = rows (b_store b)" by simp
  from fs find_similar_writes[of e memory 10 threshold "b_store b"]
  have w: "filter is_write (oplog st') = filter is_write (oplog (b_store b))" by simp
  have "b_store (group_step e threshold memory b) = st'"
    using False fs by (simp add: group_step_def split: prod.splits)
  with r w show ?thesis by simp
qed

lemma build_groups_store:
  "rows (b_store (fold (group_step e threshold) ms b)) = rows (b_store b)
   \<and> filter is_write (oplog (b_store (fold (group_step e threshold) ms b)))
       = filter is_write (oplog (b_store b))"
  by (induction ms arbitrary: b) (simp_all add: group_step_store)

lemma merge_loop_dry_run:
  "\<exists>d'. merge_loop e True auto quiet i groups d = Inr d'
        \<and> d_store d' = d_store d \<and> merged_count d' = merged_count d"
proof (induction groups arbitrary: i d)
  case Nil
  then show ?case by simp
next
  case (Cons grp groups)
  let ?d1 = "d\<lparr>echoed := echoed d @
                  (if \<not> quiet then [Echo_group i] @ map Echo_member grp @ [Echo_blank]
                   else [])\<rparr>"
  from Cons.IH[of "Suc i" ?d1] obtain d' where
    "merge_loop e True auto quiet (Suc i) groups ?d1 = Inr d'"
    "d_store d' = d_store ?d1" "merged_count d' = merged_count ?d1" by blast
  then show ?case by (simp add: Let_def)
qed

text \<open>
  C9. With fewer than two rows in the store, dedupe makes the one \<open>query().all()\<close> call
  and nothing else on the store (no ranked search, no save, no delete; the rows are as
  they were), echoes "Not enough memories to deduplicate." unless quiet, and ends
  normally with no group and nothing merged.
\<close>

theorem dedupe_short_circuit:
  assumes "length (rows st) < 2"
  shows "dedupe e dry_run auto threshold quiet st =
           Inr \<lparr>final_store = st\<lparr>oplog := oplog st @ [Op_query_all]\<rparr>,
                echo_lines = (if quiet then []
                              else [Echo_text ''Not enough memories to deduplicate.'']),
                groups_found = [], total_merged = 0\<rparr>"
  using assms by (simp add: dedupe_def query_all_def)

theorem dedupe_short_circuit_witness:
  "length (rows single) < 2
   \<and> dedupe toy_env False True (-3) False single =
       Inr \<lparr>final_store = \<lparr>rows = [mem1], oplog = [Op_query_all]\<rparr>,
            echo_lines = [Echo_text ''Not enough memories to deduplicate.''],
            groups_found = [], total_merged = 0\<rparr>
   \<and> dedupe toy_env False True (-3) True single =
       Inr \<lparr>final_store = \<lparr>rows = [mem1], oplog = [Op_query_all]\<rparr>,
            echo_lines = [], groups_found = [], total_merged = 0\<rparr>"
proof -
  have h: "length (rows single) < 2" by (simp add: single_def)
  from dedupe_short_circuit[OF h, of toy_env False True "-3" False]
       dedupe_short_circuit[OF h, of toy_env False True "-3" True] h
  show ?thesis by (simp add: single_def)
qed

lemma dedupe_found:
  assumes "\<not> length (rows st) < 2"
  shows "found (dedupe e dry_run auto threshold quiet st)
           = duplicate_groups (build_groups e threshold (rows st)
                                 (st\<lparr>oplog := oplog st @ [Op_query_all]\<rparr>))"
proof -
  let ?b = "build_groups e threshold (rows st) (st\<lparr>oplog := oplog st @ [Op_query_all]\<rparr>)"
  let ?d0 = "\<lparr>d_store = b_store ?b,
              echoed = (if \<not> quiet then [Echo_found (length (duplicate_groups ?b))] else []),
              merged_count = 0\<rparr>"
  show ?thesis
  proof (cases "duplicate_groups ?b = []")
    case True
    with assms show ?thesis by (simp add: dedupe_def query_all_def found_def Let_def)
  next
    case False
    with assms show ?thesis
      by (cases "merge_loop e dry_run auto quiet 1 (duplicate_groups ?b) ?d0")
         (auto simp: dedupe_def query_all_def Let_def found_def)
  qed
qed

text \<open>
  C10. A dry run ends normally, has computed the same sequence of duplicate groups as a
  run without dry-run on the same store (whatever that run's other options and answers
  at the prompt), and has made no save and no delete: the rows of the store are as they
  were, and nothing is counted as merged.
\<close>

theorem dry_run_purity:
  "\<exists>r. dedupe e True auto threshold quiet st = Inr r
       \<and> found (dedupe e True auto threshold quiet st)
           = found (dedupe e False auto' threshold quiet' st)
       \<and> rows (final_store r) = rows st
       \<and> filter is_write (oplog (final_store r)) = filter is_write (oplog st)
       \<and> total_merged r = 0"
proof (cases "length (rows st) < 2")
  case True
  then show ?thesis by (simp add: dedupe_def query_all_def found_def)
next
  case False
  let ?st0 = "st\<lparr>oplog := oplog st @ [Op_query_all]\<rparr>"
  let ?b = "build_groups e threshold (rows st) ?st0"
  have bs: "rows (b_store ?b) = rows st"
    "filter is_write (oplog (b_store ?b)) = filter is_write (oplog st)"
    using build_groups_store[of e threshold "rows st"
            "\<lparr>seen_ids = {}, duplicate_groups = [], b_store = ?st0\<rparr>"]
    by (simp_all add: build_groups_def)
  show ?thesis
  proof (cases "duplicate_groups ?b = []")
    case True
    with False bs show ?thesis by (simp add: dedupe_def query_all_def found_def Let_def)
  next
    case groups: False
    let ?d0 = "\<lambda>q. \<lparr>d_store = b_store ?b,
                    echoed = (if \<not> q then [Echo_found (length (duplicate_groups ?b))] else []),
                    merged_count = 0\<rparr>"
    from merge_loop_dry_run[of e auto quiet 1 "duplicate_groups ?b" "?d0 quiet"]
    obtain d' where d': "merge_loop e True auto quiet 1 (duplicate_groups ?b) (?d0 quiet) = Inr d'"
      "d_store d' = b_store ?b" "merged_count d' = 0" by auto
    have dry: "dedupe e True auto threshold quiet st =
                 Inr \<lparr>final_store = d_store d', echo_lines = echoed d',
                      groups_found = duplicate_groups ?b, total_merged = merged_count d'\<rparr>"
      using False groups d'(1) by (simp add: dedupe_def query_all_def Let_def)
    have wet: "found (dedupe e False auto' threshold quiet' st) = duplicate_groups ?b"
      using False groups
      by (cases "merge_loop e False auto' quiet' 1 (duplicate_groups ?b) (?d0 quiet')")
         (auto simp: dedupe_def query_all_def Let_def found_def)
    from dry wet d'(2,3) bs show ?thesis by (simp add: found_def)
  qed
qed

lemma toy_groups:
  "duplicate_groups (build_groups toy_env (-3) (rows corpus)
                       (corpus\<lparr>oplog := oplog corpus @ [Op_query_all]\<rparr>)) = [[mem1, mem2]]"
  by (simp add: toy_builder_defs)

theorem dry_run_purity_witness:
  "found (dedupe toy_env True False (-3) False corpus) = [[mem1, mem2]]
   \<and> found (dedupe toy_env False True (-3) True corpus) = [[mem1, mem2]]
   \<and> (\<exists>r. dedupe toy_env True False (-3) False corpus = Inr r
            \<and> rows (final_store r) = [mem1, mem2, mem3]
            \<and> filter is_write (oplog (final_store r)) = []
            \<and> total_merged r = 0)"
proof -
  have two: "\<not> length (rows corpus) < 2" by (simp add: corpus_def)
  have f1: "found (dedupe toy_env True False (-3) False corpus) = [[mem1, mem2]]"
    using dedupe_found[OF two, of toy_env True False "-3" False] toy_groups by simp
  from dry_run_purity[of toy_env False "-3" False corpus True True] obtain r where r:
    "dedupe toy_env True False (-3) False corpus = Inr r"
    "found (dedupe toy_env True False (-3) False corpus)
       = found (dedupe toy_env False True (-3) True corpus)"
    "rows (final_store r) = rows corpus"
    "filter is_write (oplog (final_store r)) = filter is_write (oplog corpus)"
    "total_merged r = 0" by blast
  from r(2) f1 have f2: "found (dedupe toy_env False True (-3) True corpus) = [[mem1, mem2]]"
    by simp
  have "dedupe toy_env True False (-3) False corpus = Inr r
            \<and> rows (final_store r) = [mem1, mem2, mem3]
            \<and> filter is_write (oplog (final_store r)) = []
            \<and> total_merged r = 0"
    using r(1,3,4,5) by (simp add: corpus_def)
  then have "\<exists>r. dedupe toy_env True False (-3) False corpus = Inr r
            \<and> rows (final_store r) = [mem1, mem2, mem3]
            \<and> filter is_write (oplog (final_store r)) = []
            \<and> total_merged r = 0" by (rule exI)
  with f1 f2 show ?thesis by (intro conjI)
qed

section \<open>Properties of the commands that write tags\<close>

lemma save_tags_unique:
  assumes "tags_unique st" "distinct (tags m)"
  shows "tags_unique (snd (save t m st))"
proof (cases "m_id m")
  case None
  with assms show ?thesis by (simp add: save_def tags_unique_def Let_def)
next
  case (Some j)
  with assms show ?thesis
    by (auto simp: save_def tags_unique_def Let_def list_all_iff)
qed

lemma save_keeps_tags: "tags (fst (save t m st)) = tags m"
  by (cases "m_id m") (simp_all add: save_def Let_def)

lemma save_stores:
  "fst (save t m st) \<in> set (rows (snd (save t m st)))"
proof (cases "m_id m")
  case None
  then show ?thesis by (simp add: save_def Let_def)
next
  case (Some j)
  then show ?thesis by (auto simp: save_def Let_def)
qed

lemma fold_delete_tags_unique:
  "tags_unique st \<Longrightarrow> tags_unique (fold delete rest st)"
  by (simp add: tags_unique_def rows_fold_delete list_all_iff)

lemma distinct_auto_tag: "distinct (auto_tag pattern_search text)"
  by (simp add: auto_tag_def AUTO_TAG_PATTERNS_def)

lemma remember_tags_distinct:
  assumes "distinct (supplied (r_tag a))"
  shows "distinct (remember_tags pattern_search add_them a)"
proof -
  let ?tags0 = "supplied (r_tag a)"
  let ?suggested = "filter (\<lambda>t. t \<notin> set ?tags0) (auto_tag pattern_search (r_content a))"
  have "distinct (?tags0 @ ?suggested)"
    using assms distinct_auto_tag[of pattern_search "r_content a"] by auto
  with assms show ?thesis
    by (simp add: remember_tags_def supplied_def Let_def)
qed

lemma remember_tags_plain:
  "\<not> r_auto_tag a \<Longrightarrow> \<not> r_suggest_tags a \<Longrightarrow>
   remember_tags pattern_search add_them a = supplied (r_tag a)"
  by (simp add: remember_tags_def supplied_def)

lemma tags_remember:
  "tags (fst (remember pattern_search add_them t a st)) = remember_tags pattern_search add_them a"
  by (simp add: remember_def save_keeps_tags)

lemma update_fold_tags:
  "tags (fst (fold (\<lambda>t (m, changed).
                      if t \<notin> E then (m\<lparr>tags := tags m @ [t]\<rparr>, True) else (m, changed))
                ts (m, ch)))
     = tags m @ filter (\<lambda>t. t \<notin> E) ts"
  by (induction ts arbitrary: m ch) simp_all

lemma update_tags_distinct:
  assumes "distinct (tags m)" "distinct (supplied tag)"
  shows "distinct (tags (fst (update_tags clear_tags tag (m, ch))))"
proof (cases clear_tags)
  case True
  then show ?thesis by (simp add: update_tags_def)
next
  case False
  show ?thesis
  proof (cases tag)
    case None
    with False assms show ?thesis by (simp add: update_tags_def)
  next
    case (Some ts)
    with assms(2) have "distinct ts" by (simp add: supplied_def)
    with assms(1) have "distinct (tags m @ filter (\<lambda>t. t \<notin> set (tags m)) ts)" by auto
    with False Some show ?thesis
      by (simp add: update_tags_def Let_def update_fold_tags)
  qed
qed

lemma from_id_row: "from_id st i = Some m \<Longrightarrow> m \<in> set (rows st)"
  by (auto simp: from_id_def find_Some_iff)

lemma tags_add_unique:
  assumes "tags_unique st" "tags_add t memory_id tag st = Inr st'"
  shows "tags_unique st'"
proof (cases "from_id st memory_id")
  case None
  with assms(2) show ?thesis by (simp add: tags_add_def)
next
  case (Some memory)
  from from_id_row[OF Some] assms(1) have d: "distinct (tags memory)"
    by (simp add: tags_unique_def list_all_iff)
  show ?thesis
  proof (cases "tag \<in> set (tags memory)")
    case True
    with Some assms show ?thesis by (simp add: tags_add_def)
  next
    case False
    with d have "distinct (tags (memory\<lparr>tags := tags memory @ [tag]\<rparr>))" by simp
    from save_tags_unique[OF assms(1) this, of t] Some False assms(2)
    show ?thesis by (auto simp: tags_add_def)
  qed
qed

lemma import_memories_unique:
  "tags_unique st \<Longrightarrow> \<forall>item \<in> set data. distinct (supplied (i_tags item)) \<Longrightarrow>
   tags_unique (import_memories t data st)"
proof (induction data arbitrary: st)
  case Nil
  then show ?case by (simp add: import_memories_def)
next
  case (Cons item data)
  from Cons.prems(2) have "distinct (tags (import_memory item))"
    by (simp add: import_memory_def supplied_def)
  from save_tags_unique[OF Cons.prems(1) this, of t]
  have "tags_unique (snd (save t (import_memory item) st))" .
  from Cons.IH[OF this] Cons.prems(2) show ?case by (simp add: import_memories_def)
qed

lemma merge_group_tags_unique:
  assumes "set_iteration_ok e" "tags_unique st" "merge_group e i grp st = Inr r"
  shows "tags_unique (m_store r)"
proof (cases "sort_newest_first grp")
  case (Inl ex)
  with assms(3) show ?thesis by (simp add: merge_group_def)
next
  case (Inr sorted)
  show ?thesis
  proof (cases sorted)
    case Nil
    with Inr assms(3) show ?thesis by (simp add: merge_group_def)
  next
    case (Cons keeper rest)
    let ?all = "fold (\<lambda>mem s. s \<union> set (tags mem)) rest (set (tags keeper))"
    let ?k' = "keeper\<lparr>tags := list_of_set e ?all\<rparr>"
    have "finite ?all" by (simp add: fold_union_tags)
    with assms(1) have "distinct (tags ?k')" by (simp add: set_iteration_ok_def)
    from save_tags_unique[OF assms(2) this, of "now e i"]
    have "tags_unique (fold delete rest (snd (save (now e i) ?k' st)))"
      by (rule fold_delete_tags_unique)
    moreover from Inr Cons assms(3)
    have "m_store r = fold delete rest (snd (save (now e i) ?k' st))"
      by (auto simp: merge_group_def Let_def split: prod.splits)
    ultimately show ?thesis by simp
  qed
qed

text \<open>
  C3 (as amended). Tag uniqueness is preserved, not enforced. From a store in which no
  row has a tag twice: \<open>remember\<close> stores a duplicate-free tag list when the \<open>--tag\<close>
  values are duplicate-free (without auto-tagging it stores them as given);
  the tag block of \<open>update\<close> gives a duplicate-free list when the \<open>--tag\<close> values are
  duplicate-free; \<open>tags add\<close> keeps every row duplicate-free; \<open>import\<close> does when
  every imported tag list is duplicate-free; and a dedupe merge does for every
  iteration order of the set of tags.
\<close>

theorem tags_stay_unique:
  assumes "tags_unique st"
  shows "(distinct (supplied (r_tag a)) \<longrightarrow>
            distinct (tags (fst (remember pattern_search add_them t a st)))
            \<and> tags_unique (snd (remember pattern_search add_them t a st)))
         \<and> (\<not> r_auto_tag a \<and> \<not> r_suggest_tags a \<longrightarrow>
              tags (fst (remember pattern_search add_them t a st)) = supplied (r_tag a))
         \<and> (distinct (tags m) \<and> distinct (supplied tag) \<longrightarrow>
              distinct (tags (fst (update_tags clear_tags tag (m, ch))))
              \<and> tags_unique (snd (save t (fst (update_tags clear_tags tag (m, ch))) st)))
         \<and> (\<forall>st'. tags_add t memory_id new_tag st = Inr st' \<longrightarrow> tags_unique st')
         \<and> ((\<forall>item \<in> set data. distinct (supplied (i_tags item))) \<longrightarrow>
              tags_unique (import_memories t data st))
         \<and> (set_iteration_ok e \<longrightarrow>
              (\<forall>r. merge_group e i grp st = Inr r \<longrightarrow> tags_unique (m_store r)))"
proof (intro conjI impI allI)
  assume d: "distinct (supplied (r_tag a))"
  from remember_tags_distinct[OF d, of pattern_search add_them]
  show dr: "distinct (tags (fst (remember pattern_search add_them t a st)))"
    by (simp add: tags_remember)
  have "distinct (tags \<lparr>m_id = None, content = r_content a,
          tags = remember_tags pattern_search add_them a,
          context_text = r_context a, source = r_source a, session_id = r_session a,
          supersedes = r_supersedes a,
          see_also = (case r_see_also a of None \<Rightarrow> [] | Some xs \<Rightarrow> xs),
          source_url = r_source_url a, source_file = r_source_file a,
          importance = r_importance a, created_at = None, updated_at = None\<rparr>)"
    using remember_tags_distinct[OF d, of pattern_search add_them] by simp
  from save_tags_unique[OF assms this, of t]
  show "tags_unique (snd (remember pattern_search add_them t a st))"
    by (simp add: remember_def)
next
  assume "\<not> r_auto_tag a \<and> \<not> r_suggest_tags a"
  then show "tags (fst (remember pattern_search add_them t a st)) = supplied (r_tag a)"
    by (simp add: tags_remember remember_tags_plain)
next
  assume "distinct (tags m) \<and> distinct (supplied tag)"
  then have d: "distinct (tags m)" "distinct (supplied tag)" by simp_all
  from update_tags_distinct[OF d, of clear_tags ch]
  show u: "distinct (tags (fst (update_tags clear_tags tag (m, ch))))" .
  from save_tags_unique[OF assms u, of t]
  show "tags_unique (snd (save t (fst (update_tags clear_tags tag (m, ch))) st))" .
next
  fix st' assume "tags_add t memory_id new_tag st = Inr st'"
  from tags_add_unique[OF assms this] show "tags_unique st'" .
next
  assume "\<forall>item \<in> set data. distinct (supplied (i_tags item))"
  from import_memories_unique[OF assms this] show "tags_unique (import_memories t data st)" .
next
  fix r assume "set_iteration_ok e" "merge_group e i grp st = Inr r"
  from merge_group_tags_unique[OF this(1) assms this(2)] show "tags_unique (m_store r)" .
qed

lemma tags_unique_corpus: "tags_unique corpus"
  by (simp add: tags_unique_def corpus_def mem1_def mem2_def mem3_def stored_memory_def)

theorem tags_stay_unique_witness:
  "tags_unique corpus
   \<and> distinct (supplied (r_tag plain_args))
   \<and> tags (fst (remember no_match False 5 plain_args corpus)) = [''a'', ''b'']
   \<and> tags_unique (snd (remember no_match False 5 plain_args corpus))
   \<and> distinct (tags mem1) \<and> distinct (supplied (Some [''x'', ''y'']))
   \<and> distinct (tags (fst (update_tags False (Some [''x'', ''y'']) (mem1, False))))
   \<and> (\<exists>st'. tags_add 5 1 ''x'' corpus = Inr st' \<and> tags_unique st')
   \<and> distinct (supplied (i_tags one_item))
   \<and> tags_unique (import_memories 5 [one_item] corpus)
   \<and> set_iteration_ok toy_env
   \<and> (\<exists>r. merge_group toy_env 1 [mem1, mem2] corpus = Inr r \<and> tags_unique (m_store r))"
proof -
  note T = tags_stay_unique[OF tags_unique_corpus,
      where a = plain_args and pattern_search = no_match and add_them = False and t = 5
        and m = mem1 and tag = "Some [''x'', ''y'']" and clear_tags = False and ch = False
        and memory_id = 1 and new_tag = "''x''" and data = "[one_item]"
        and e = toy_env and i = 1 and grp = "[mem1, mem2]"]
  have h1: "distinct (supplied (r_tag plain_args))"
    by (simp add: plain_args_def twice_args_def supplied_def)
  have h2: "\<not> r_auto_tag plain_args \<and> \<not> r_suggest_tags plain_args"
    by (simp add: plain_args_def twice_args_def)
  have h3: "distinct (tags mem1) \<and> distinct (supplied (Some [''x'', ''y'']))"
    by (simp add: mem1_def stored_memory_def supplied_def)
  have h5: "\<forall>item \<in> set [one_item]. distinct (supplied (i_tags item))"
    by (simp add: one_item_def supplied_def)
  have sp: "supplied (r_tag plain_args) = [''a'', ''b'']"
    by (simp add: plain_args_def twice_args_def supplied_def)
  from T[THEN conjunct1] h1
  have c1: "tags_unique (snd (remember no_match False 5 plain_args corpus))" by simp
  from T[THEN conjunct2, THEN conjunct1] h2 sp
  have c2: "tags (fst (remember no_match False 5 plain_args corpus)) = [''a'', ''b'']" by simp
  from T[THEN conjunct2, THEN conjunct2, THEN conjunct1] h3
  have c3: "distinct (tags (fst (update_tags False (Some [''x'', ''y'']) (mem1, False))))"
    by simp
  have ta: "tags_add 5 1 ''x'' corpus
              = Inr (snd (save 5 (mem1\<lparr>tags := tags mem1 @ [''x'']\<rparr>) corpus))"
    by (simp add: tags_add_def from_id_def corpus_def mem1_def mem2_def mem3_def stored_memory_def)
  from T[THEN conjunct2, THEN conjunct2, THEN conjunct2, THEN conjunct1] ta
  have "tags_unique (snd (save 5 (mem1\<lparr>tags := tags mem1 @ [''x'']\<rparr>) corpus))" by simp
  with ta have c4: "\<exists>st'. tags_add 5 1 ''x'' corpus = Inr st' \<and> tags_unique st'" by simp
  from T[THEN conjunct2, THEN conjunct2, THEN conjunct2, THEN conjunct2, THEN conjunct1] h5
  have c5: "tags_unique (import_memories 5 [one_item] corpus)" by simp
  have inst: "Some 2 \<in> set (map m_id (rows corpus))" by (simp add: corpus_def toy_ids)
  note res = merge_group_result[OF sort_toy toy_ids(2) inst, of toy_env 1]
  from T[THEN conjunct2, THEN conjunct2, THEN conjunct2, THEN conjunct2, THEN conjunct2]
    set_iteration_ok_toy_env res
  have c6: "\<exists>r. merge_group toy_env 1 [mem1, mem2] corpus = Inr r \<and> tags_unique (m_store r)"
    by simp
  from h5 have h5': "distinct (supplied (i_tags one_item))" by simp
  show ?thesis
    by (intro conjI tags_unique_corpus h1 c2 c1 h3[THEN conjunct1] h3[THEN conjunct2] c3 c4 h5' c5
          set_iteration_ok_toy_env c6)
qed

theorem remember_duplicate_tag_counterexample:
  "tags (fst (remember no_match False 5 twice_args corpus)) = [''a'', ''a'']
   \<and> fst (remember no_match False 5 twice_args corpus)
       \<in> set (rows (snd (remember no_match False 5 twice_args corpus)))
   \<and> \<not> distinct (tags (fst (remember no_match False 5 twice_args corpus)))"
proof -
  have t: "tags (fst (remember no_match False 5 twice_args corpus)) = [''a'', ''a'']"
    by (simp add: tags_remember remember_tags_plain twice_args_def supplied_def)
  have r: "fst (remember no_match False 5 twice_args corpus)
             \<in> set (rows (snd (remember no_match False 5 twice_args corpus)))"
    unfolding remember_def by (rule save_stores)
  from t r show ?thesis by simp
qed

end
